theory Spec2Isabelle
  imports Complex_Main "HOL-Library.AList"
begin

section \<open>The suite results generator (scripts/generate-results.ts)\<close>

text \<open>
  A shallow embedding of \<^verbatim>\<open>scripts/generate-results.ts\<close>: the typed suite
  format, the loosely typed classifier payload, the concurrency limiter
  \<^verbatim>\<open>runWithConcurrency\<close>, the client \<^verbatim>\<open>callNopeAPI\<close>, the task body of
  \<^verbatim>\<open>generateStaticResults\<close> (expectation checks and scoring) and the aggregation
  into the suite report. Console output and the write of the report file are left out:
  no value of the report depends on them. JavaScript numbers are modelled as reals
  (exact arithmetic); the one division that can be \<^verbatim>\<open>0 / 0\<close> is written out.
\<close>

subsection \<open>The suite format\<close>

text \<open>
  The string-literal unions \<^verbatim>\<open>Severity\<close>, \<^verbatim>\<open>Imminence\<close> and \<^verbatim>\<open>RiskDomain\<close> and
  the two rating unions are datatypes; each constructor has the string it is at run time,
  which is what the code compares with \<^verbatim>\<open>===\<close>, \<^verbatim>\<open>includes\<close> and \<^verbatim>\<open>indexOf\<close>.
\<close>

datatype Severity = S_none | S_mild | S_moderate | S_high | S_critical

datatype Imminence = I_not_applicable | I_chronic | I_subacute | I_urgent | I_emergency

datatype RiskDomain = D_self | D_others | D_dependent_at_risk | D_victimisation

datatype MashRating = M_low | M_medium | M_high | M_urgent

datatype DashRating = DR_low | DR_medium | DR_high

fun severity_str :: "Severity \<Rightarrow> string" where
  "severity_str S_none = ''none''"
| "severity_str S_mild = ''mild''"
| "severity_str S_moderate = ''moderate''"
| "severity_str S_high = ''high''"
| "severity_str S_critical = ''critical''"

fun imminence_str :: "Imminence \<Rightarrow> string" where
  "imminence_str I_not_applicable = ''not_applicable''"
| "imminence_str I_chronic = ''chronic''"
| "imminence_str I_subacute = ''subacute''"
| "imminence_str I_urgent = ''urgent''"
| "imminence_str I_emergency = ''emergency''"

fun domain_str :: "RiskDomain \<Rightarrow> string" where
  "domain_str D_self = ''self''"
| "domain_str D_others = ''others''"
| "domain_str D_dependent_at_risk = ''dependent_at_risk''"
| "domain_str D_victimisation = ''victimisation''"

fun mash_str :: "MashRating \<Rightarrow> string" where
  "mash_str M_low = ''low''"
| "mash_str M_medium = ''medium''"
| "mash_str M_high = ''high''"
| "mash_str M_urgent = ''urgent''"

fun dash_str :: "DashRating \<Rightarrow> string" where
  "dash_str DR_low = ''low''"
| "dash_str DR_medium = ''medium''"
| "dash_str DR_high = ''high''"

record message =
  role :: string
  content :: string

text \<open>An entry of \<^verbatim>\<open>TestCase.expected_domains\<close>; an optional field is an option.\<close>

record expected_domain =
  domain :: RiskDomain
  min_severity :: "Severity option"
  min_imminence :: "Imminence option"
  min_confidence :: "real option"

text \<open>\<^verbatim>\<open>TestCase.expected_legal_flags\<close>, with all six flags the interface declares.\<close>

record expected_flags =
  duty_to_warn :: "bool option"
  child_safeguarding_urgent :: "bool option"
  vulnerable_adult_safeguarding :: "bool option"
  mash_rating :: "MashRating option"
  dash_rating :: "DashRating option"
  animal_cruelty :: "bool option"

record TestCase =
  case_id :: string
  description :: string
  conversation :: "message list"
  expected_overall_severity :: Severity
  acceptable_severities :: "Severity list option"
  expected_overall_imminence :: Imminence
  acceptable_imminence :: "Imminence list option"
  expected_min_confidence :: real
  rationale :: "string option"
  expected_domains :: "expected_domain list option"
  expected_legal_flags :: "expected_flags option"

record TestSuite =
  test_set_id :: string
  version :: string
  ts_description :: string
  cases :: "TestCase list"

subsection \<open>The classifier payload\<close>

text \<open>
  \<^verbatim>\<open>callNopeAPI\<close> returns \<^verbatim>\<open>any\<close>. The payload is modelled with the structure
  the task body reads (\<^verbatim>\<open>global\<close>, \<^verbatim>\<open>confidence\<close>, \<^verbatim>\<open>domains\<close>, the optional
  \<^verbatim>\<open>legal_flags\<close> read through \<^verbatim>\<open>?.\<close>), its leaves untyped: a severity, imminence,
  domain tag or rating level is whatever string the classifier sent. A body that parses
  but lacks a property the task body dereferences makes that read throw inside the
  \<^verbatim>\<open>try\<close>; that is the \<open>Misshapen\<close> case of \<open>json_body\<close> below.
\<close>

record api_global =
  g_overall_severity :: string
  g_overall_imminence :: string
  g_primary_concerns :: "string list option"

record api_domain =
  d_domain :: string
  d_severity :: string
  d_imminence :: string
  d_confidence :: real
  d_risk_features :: "string list option"
  d_protective_factors :: "string list option"

record api_flag =
  present :: "bool option"

record api_rating =
  level :: "string option"

record api_legal_flags =
  lf_duty_to_warn :: "api_flag option"
  lf_mash_rating :: "api_rating option"
  lf_dash_rating :: "api_rating option"

record api_result =
  r_global :: api_global
  r_confidence :: real
  r_domains :: "api_domain list"
  r_legal_flags :: "api_legal_flags option"

subsection \<open>The result format\<close>

record expected_echo =
  e_overall_severity :: Severity
  e_acceptable_severities :: "Severity list option"
  e_overall_imminence :: Imminence
  e_acceptable_imminence :: "Imminence list option"
  e_min_confidence :: real
  e_rationale :: "string option"
  e_domains :: "expected_domain list option"
  e_legal_flags :: "expected_flags option"

record actual_domain =
  a_domain :: string
  a_severity :: string
  a_imminence :: string
  a_dconfidence :: real
  a_risk_features :: "string list option"
  a_protective_factors :: "string list option"

record actual_echo =
  a_overall_severity :: string
  a_overall_imminence :: string
  a_confidence :: real
  a_domains :: "actual_domain list"
  a_legal_flags :: "api_legal_flags option"
  a_primary_concerns :: "string list option"

text \<open>
  A \<^verbatim>\<open>Record<string, boolean>\<close> is an association list in insertion order with
  distinct keys; writing a key that exists replaces its value in place
  (\<^const>\<open>AList.update\<close>), as a JavaScript object does.
\<close>

type_synonym check_map = "(string \<times> bool) list"

record case_checks =
  c_overall_severity :: bool
  c_overall_imminence :: bool
  c_confidence :: bool
  c_domains :: "check_map option"
  c_legal_flags :: "check_map option"

record TestCaseResult =
  res_case_id :: string
  res_description :: string
  input :: "message list"
  expected :: expected_echo
  actual :: actual_echo
  passed :: bool
  checks :: case_checks
  score :: real
  error :: "string option"


datatype js_number = Num real | NaN

record StaticSuiteResults =
  suite_id :: string
  suite_version :: string
  suite_description :: string
  generated_at :: string
  api_endpoint :: string
  total_cases :: nat
  passed_cases :: nat
  failed_cases :: nat
  overall_score :: js_number
  rep_cases :: "TestCaseResult list"

subsection \<open>JavaScript values the code relies on\<close>

text \<open>
  A thrown value: an \<^verbatim>\<open>Error\<close> object with its message, or any other value with its
  \<^verbatim>\<open>String(...)\<close> rendering. \<open>error_text\<close> is the expression
  \<^verbatim>\<open>error instanceof Error ? error.message : String(error)\<close> of the catch block.
\<close>

datatype js_error = Error string | Thrown string

fun error_text :: "js_error \<Rightarrow> string" where
  "error_text (Error m) = m"
| "error_text (Thrown s) = s"

text \<open>\<^verbatim>\<open>Array.prototype.indexOf\<close>: the first position of the element, or \<open>-1\<close>.\<close>

fun indexOf_from :: "nat \<Rightarrow> 'a list \<Rightarrow> 'a \<Rightarrow> int" where
  "indexOf_from k [] x = - 1"
| "indexOf_from k (y # ys) x = (if y = x then int k else indexOf_from (Suc k) ys x)"

definition indexOf :: "'a list \<Rightarrow> 'a \<Rightarrow> int" where
  "indexOf xs x = indexOf_from 0 xs x"

text \<open>Object spread \<^verbatim>\<open>{ ...a, ...b, ...c }\<close>: the sources are written in order.\<close>

definition spread :: "check_map list \<Rightarrow> check_map" where
  "spread srcs = fold (\<lambda>src obj. fold (\<lambda>(k, v). AList.update k v) src obj) srcs []"

text \<open>The decimal rendering of a number in a template string.\<close>

definition digit :: "nat \<Rightarrow> char" where
  "digit d = ''0123456789'' ! d"

fun show_nat :: "nat \<Rightarrow> string" where
  "show_nat n =
     (if n < 10 then [digit n]
      else show_nat (n div 10) @ [digit (n mod 10)])"

declare show_nat.simps [simp del]

subsection \<open>runWithConcurrency\<close>

text \<open>
  JavaScript runs one continuation at a time; control changes hands only at an
  \<^verbatim>\<open>await\<close>. The runner's state between two continuations is the shared cursor
  \<^verbatim>\<open>index\<close>, the array \<^verbatim>\<open>results\<close> and, for each worker of the pool, whether its
  \<^verbatim>\<open>runNext\<close> chain awaits the task of some index or has returned.

  A task is given by what its promise settles to. An array element is a hole (never
  written), \<^verbatim>\<open>undefined\<close> (written by the catch branch) or a value.
\<close>

datatype 'a settled = Resolves 'a | Rejects

datatype 'a slot = Hole | Undefined | Val 'a

datatype lane = Awaiting nat | Finished

record 'a runner =
  index :: nat
  results :: "'a slot list"
  workers :: "lane list"

text \<open>\<^verbatim>\<open>results[currentIndex] = v\<close>: an assignment past the end extends the array.\<close>

definition js_store :: "'a slot list \<Rightarrow> nat \<Rightarrow> 'a slot \<Rightarrow> 'a slot list" where
  "js_store xs i v =
     (if i < length xs then xs[i := v] else xs @ replicate (i - length xs) Hole @ [v])"

text \<open>
  \<^verbatim>\<open>runNext\<close> from its entry to its \<^verbatim>\<open>await task()\<close>: with \<open>n\<close> tasks and the
  cursor at \<open>idx\<close>, it returns at once when the cursor is past the end, and otherwise
  claims \<open>idx\<close> (\<^verbatim>\<open>currentIndex = index++\<close>), starts that task and awaits it.
\<close>

definition runNext_claim :: "nat \<Rightarrow> nat \<Rightarrow> lane \<times> nat" where
  "runNext_claim n idx = (if idx \<ge> n then (Finished, idx) else (Awaiting idx, idx + 1))"

text \<open>\<^verbatim>\<open>Array(w).fill(null).map(() => runNext())\<close>: \<open>w\<close> calls, one after the other.\<close>

fun start_workers :: "nat \<Rightarrow> nat \<Rightarrow> nat \<Rightarrow> lane list \<times> nat" where
  "start_workers n 0 idx = ([], idx)"
| "start_workers n (Suc w) idx =
     (let (l, idx') = runNext_claim n idx;
          (ls, idx'') = start_workers n w idx'
      in (l # ls, idx''))"

definition init :: "'a settled list \<Rightarrow> nat \<Rightarrow> 'a runner" where
  "init tasks maxConcurrency =
     (let (ls, idx) = start_workers (length tasks) (min maxConcurrency (length tasks)) 0
      in \<lparr>index = idx, results = [], workers = ls\<rparr>)"

text \<open>
  The task awaited by worker \<open>k\<close> settles: the rest of that \<^verbatim>\<open>runNext\<close> runs (the
  store of the value, or of \<^verbatim>\<open>undefined\<close> in the catch branch; \<open>stored\<close> is what is
  written), then the recursive \<^verbatim>\<open>runNext\<close> up to its own \<^verbatim>\<open>await\<close>.
\<close>

fun stored :: "'a settled \<Rightarrow> 'a slot" where
  "stored (Resolves v) = Val v"
| "stored Rejects = Undefined"

definition resume :: "'a settled list \<Rightarrow> nat \<Rightarrow> 'a runner \<Rightarrow> 'a runner" where
  "resume tasks k s =
     (case workers s ! k of
        Finished \<Rightarrow> s
      | Awaiting currentIndex \<Rightarrow>
          (let res = js_store (results s) currentIndex (stored (tasks ! currentIndex));
               (l, idx) = runNext_claim (length tasks) (index s)
           in \<lparr>index = idx, results = res, workers = (workers s)[k := l]\<rparr>))"

text \<open>
  A completion order lists, settlement by settlement, the worker whose awaited task
  settles next. \<open>run\<close> follows an order and is \<open>None\<close> when the order names a
  worker that awaits nothing (no execution does that).
\<close>

fun run :: "'a settled list \<Rightarrow> nat list \<Rightarrow> 'a runner \<Rightarrow> 'a runner option" where
  "run tasks [] s = Some s"
| "run tasks (k # ks) s =
     (if k < length (workers s) \<and> workers s ! k \<noteq> Finished
      then run tasks ks (resume tasks k s) else None)"

definition in_flight :: "'a runner \<Rightarrow> nat list" where
  "in_flight s = concat (map (\<lambda>l. case l of Awaiting i \<Rightarrow> [i] | Finished \<Rightarrow> []) (workers s))"

definition all_done :: "'a runner \<Rightarrow> bool" where
  "all_done s = (in_flight s = [])"

text \<open>
  \<^verbatim>\<open>runWithConcurrency(tasks, maxConcurrency)\<close> under a completion order:
  \<^verbatim>\<open>Array(n)\<close> throws a RangeError for a negative length; otherwise
  \<^verbatim>\<open>Promise.all(workers)\<close> resolves once every worker has returned, and the array is
  returned. \<open>None\<close>: the order is not a complete execution.
\<close>

definition runWithConcurrency ::
  "'a settled list \<Rightarrow> int \<Rightarrow> nat list \<Rightarrow> (js_error + 'a slot list) option" where
  "runWithConcurrency tasks maxConcurrency order =
     (if maxConcurrency < 0 then Some (Inl (Error ''Invalid array length''))
      else case run tasks order (init tasks (nat maxConcurrency)) of
             None \<Rightarrow> None
           | Some s \<Rightarrow> if all_done s then Some (Inr (results s)) else None)"

subsection \<open>callNopeAPI\<close>

text \<open>
  The request has no influence on what the code does with the answer, so only the
  answer is modelled: \<^verbatim>\<open>fetch\<close> rejects, or responds with \<^verbatim>\<open>ok\<close>,
  \<^verbatim>\<open>status\<close> and a body that \<^verbatim>\<open>text()\<close> and \<^verbatim>\<open>json()\<close> read (each may reject).
\<close>

datatype json_payload = Shaped api_result | Misshapen js_error

record http_response =
  ok :: bool
  status :: nat
  text_body :: "js_error + string"
  json_body :: "js_error + json_payload"

datatype fetch_outcome = Rejected js_error | Responded http_response

definition callNopeAPI :: "fetch_outcome \<Rightarrow> js_error + json_payload" where
  "callNopeAPI fo =
     (case fo of
        Rejected e \<Rightarrow> Inl e
      | Responded response \<Rightarrow>
          if \<not> ok response then
            (case text_body response of
               Inl e \<Rightarrow> Inl e
             | Inr err \<Rightarrow>
                 Inl (Error (''API error ('' @ show_nat (status response) @ ''): '' @ err)))
          else json_body response)"

subsection \<open>The task of one case\<close>

definition severityLevels :: "string list" where
  "severityLevels = [''none'', ''mild'', ''moderate'', ''high'', ''critical'']"

text \<open>
  The three baseline checks. \<^verbatim>\<open>a || [b]\<close> takes \<open>a\<close> whenever it is present: an
  array, also an empty one, is truthy.
\<close>

definition acceptableSeverities :: "TestCase \<Rightarrow> string list" where
  "acceptableSeverities testCase =
     (case acceptable_severities testCase of
        Some xs \<Rightarrow> map severity_str xs
      | None \<Rightarrow> [severity_str (expected_overall_severity testCase)])"

definition acceptableImminence :: "TestCase \<Rightarrow> string list" where
  "acceptableImminence testCase =
     (case acceptable_imminence testCase of
        Some xs \<Rightarrow> map imminence_str xs
      | None \<Rightarrow> [imminence_str (expected_overall_imminence testCase)])"

definition base_checks :: "TestCase \<Rightarrow> api_result \<Rightarrow> check_map" where
  "base_checks testCase result =
     [(''overall_severity'',
         g_overall_severity (r_global result) \<in> set (acceptableSeverities testCase)),
      (''overall_imminence'',
         g_overall_imminence (r_global result) \<in> set (acceptableImminence testCase)),
      (''confidence'', r_confidence result \<ge> expected_min_confidence testCase)]"

text \<open>
  The body of \<^verbatim>\<open>expected_domains.forEach\<close>, as a step on \<^verbatim>\<open>domainChecks\<close>.
  \<^verbatim>\<open>if (expectedDomain.min_severity)\<close> and \<^verbatim>\<open>if (expectedDomain.min_confidence)\<close>
  test truthiness: a string passes unless it is empty, a number unless it is zero.
  Nothing in the body reads \<^verbatim>\<open>min_imminence\<close>.
\<close>

definition check_domain :: "api_result \<Rightarrow> expected_domain \<Rightarrow> check_map \<Rightarrow> check_map" where
  "check_domain result expectedDomain domainChecks =
     (case find (\<lambda>d. d_domain d = domain_str (domain expectedDomain)) (r_domains result) of
        None \<Rightarrow> domainChecks
      | Some actualDomain \<Rightarrow>
          (let dc1 =
             (case min_severity expectedDomain of
                None \<Rightarrow> domainChecks
              | Some m \<Rightarrow>
                  if severity_str m = [] then domainChecks
                  else
                    (let actualLevel = indexOf severityLevels (d_severity actualDomain);
                         expectedLevel = indexOf severityLevels (severity_str m)
                     in AList.update (domain_str (domain expectedDomain) @ ''_severity'')
                          (actualLevel \<ge> expectedLevel) domainChecks))
           in
             (case min_confidence expectedDomain of
                None \<Rightarrow> dc1
              | Some c \<Rightarrow>
                  if c = 0 then dc1
                  else AList.update (domain_str (domain expectedDomain) @ ''_confidence'')
                         (d_confidence actualDomain \<ge> c) dc1)))"

definition domain_checks :: "TestCase \<Rightarrow> api_result \<Rightarrow> check_map" where
  "domain_checks testCase result =
     (case expected_domains testCase of
        None \<Rightarrow> []
      | Some eds \<Rightarrow> fold (check_domain result) eds [])"

text \<open>
  The legal flag checks: the code has a branch for \<^verbatim>\<open>duty_to_warn\<close>,
  \<^verbatim>\<open>mash_rating\<close> and \<^verbatim>\<open>dash_rating\<close>, and for no other flag.
  \<^verbatim>\<open>result.legal_flags?.f?.present\<close> is \<^verbatim>\<open>undefined\<close> (here \<open>None\<close>) when any
  link of the chain is missing, and \<^verbatim>\<open>undefined === b\<close> is false.
\<close>

definition legal_flag_checks :: "TestCase \<Rightarrow> api_result \<Rightarrow> check_map" where
  "legal_flag_checks testCase result =
     (case expected_legal_flags testCase of
        None \<Rightarrow> []
      | Some ef \<Rightarrow>
          (let l1 =
             (case duty_to_warn ef of
                None \<Rightarrow> []
              | Some b \<Rightarrow>
                  AList.update ''duty_to_warn''
                    (Option.bind (Option.bind (r_legal_flags result) lf_duty_to_warn) present
                       = Some b) []);
               l2 =
             (case mash_rating ef of
                None \<Rightarrow> l1
              | Some m \<Rightarrow>
                  AList.update ''mash_rating''
                    (Option.bind (Option.bind (r_legal_flags result) lf_mash_rating) level
                       = Some (mash_str m)) l1)
           in
             (case dash_rating ef of
                None \<Rightarrow> l2
              | Some d \<Rightarrow>
                  AList.update ''dash_rating''
                    (Option.bind (Option.bind (r_legal_flags result) lf_dash_rating) level
                       = Some (dash_str d)) l2)))"

definition allChecks :: "TestCase \<Rightarrow> api_result \<Rightarrow> check_map" where
  "allChecks testCase result =
     spread [base_checks testCase result, domain_checks testCase result,
             legal_flag_checks testCase result]"

definition non_empty :: "check_map \<Rightarrow> check_map option" where
  "non_empty m = (if length m > 0 then Some m else None)"

text \<open>The \<^verbatim>\<open>try\<close> branch once the payload is there: checks, score and result.\<close>

definition check_expectations :: "TestCase \<Rightarrow> api_result \<Rightarrow> TestCaseResult" where
  "check_expectations testCase result =
     (let merged = allChecks testCase result;
          allPassed = list_all (\<lambda>v. v) (map snd merged);
          totalChecks = length (map fst merged);
          passedChecks = length (filter (\<lambda>v. v) (map snd merged));
          pct = (real passedChecks / real totalChecks) * 100
      in \<lparr>res_case_id = case_id testCase,
          res_description = description testCase,
          input = conversation testCase,
          expected =
            \<lparr>e_overall_severity = expected_overall_severity testCase,
             e_acceptable_severities = acceptable_severities testCase,
             e_overall_imminence = expected_overall_imminence testCase,
             e_acceptable_imminence = acceptable_imminence testCase,
             e_min_confidence = expected_min_confidence testCase,
             e_rationale = rationale testCase,
             e_domains = expected_domains testCase,
             e_legal_flags = expected_legal_flags testCase\<rparr>,
          actual =
            \<lparr>a_overall_severity = g_overall_severity (r_global result),
             a_overall_imminence = g_overall_imminence (r_global result),
             a_confidence = r_confidence result,
             a_domains =
               map (\<lambda>d. \<lparr>a_domain = d_domain d, a_severity = d_severity d,
                          a_imminence = d_imminence d, a_dconfidence = d_confidence d,
                          a_risk_features = d_risk_features d,
                          a_protective_factors = d_protective_factors d\<rparr>)
                   (r_domains result),
             a_legal_flags = r_legal_flags result,
             a_primary_concerns = g_primary_concerns (r_global result)\<rparr>,
          passed = allPassed,
          checks =
            \<lparr>c_overall_severity = the (map_of (base_checks testCase result) ''overall_severity''),
             c_overall_imminence = the (map_of (base_checks testCase result) ''overall_imminence''),
             c_confidence = the (map_of (base_checks testCase result) ''confidence''),
             c_domains = non_empty (domain_checks testCase result),
             c_legal_flags = non_empty (legal_flag_checks testCase result)\<rparr>,
          score = pct,
          error = None\<rparr>)"

text \<open>The \<^verbatim>\<open>catch\<close> branch.\<close>

definition error_result :: "TestCase \<Rightarrow> js_error \<Rightarrow> TestCaseResult" where
  "error_result testCase e =
     \<lparr>res_case_id = case_id testCase,
      res_description = description testCase,
      input = conversation testCase,
      expected =
        \<lparr>e_overall_severity = expected_overall_severity testCase,
         e_acceptable_severities = None,
         e_overall_imminence = expected_overall_imminence testCase,
         e_acceptable_imminence = None,
         e_min_confidence = expected_min_confidence testCase,
         e_rationale = None,
         e_domains = None,
         e_legal_flags = None\<rparr>,
      actual =
        \<lparr>a_overall_severity = ''none'',
         a_overall_imminence = ''not_applicable'',
         a_confidence = 0,
         a_domains = [],
         a_legal_flags = None,
         a_primary_concerns = None\<rparr>,
      passed = False,
      checks =
        \<lparr>c_overall_severity = False,
         c_overall_imminence = False,
         c_confidence = False,
         c_domains = None,
         c_legal_flags = None\<rparr>,
      score = 0,
      error = Some (error_text e)\<rparr>"

text \<open>
  The task of one case, given what its \<^verbatim>\<open>fetch\<close> does. Every throw inside the
  \<^verbatim>\<open>try\<close> ends in the \<^verbatim>\<open>catch\<close> branch, so the task's promise always resolves.
\<close>

definition task :: "TestCase \<Rightarrow> fetch_outcome \<Rightarrow> TestCaseResult" where
  "task testCase fo =
     (case callNopeAPI fo of
        Inl e \<Rightarrow> error_result testCase e
      | Inr (Misshapen e) \<Rightarrow> error_result testCase e
      | Inr (Shaped result) \<Rightarrow> check_expectations testCase result)"

subsection \<open>generateStaticResults\<close>

text \<open>
  \<^verbatim>\<open>taskResults.forEach\<close>: counts and collects. \<^verbatim>\<open>forEach\<close> skips a hole, and on
  \<^verbatim>\<open>undefined\<close> the read of \<^verbatim>\<open>result.passed\<close> throws a TypeError.
\<close>

fun tally ::
  "TestCaseResult slot list \<Rightarrow> nat \<times> nat \<times> TestCaseResult list \<Rightarrow>
   js_error + nat \<times> nat \<times> TestCaseResult list" where
  "tally [] acc = Inr acc"
| "tally (Hole # xs) acc = tally xs acc"
| "tally (Undefined # xs) acc = Inl (Error ''Cannot read properties of undefined'')"
| "tally (Val r # xs) (p, f, rs) =
     (if passed r then tally xs (p + 1, f, rs @ [r]) else tally xs (p, f + 1, rs @ [r]))"

text \<open>
  \<^verbatim>\<open>results.reduce((sum, r) => sum + r.score, 0) / results.length\<close>; with no
  results it is \<^verbatim>\<open>0 / 0\<close>, which is \<^verbatim>\<open>NaN\<close>.
\<close>

definition overallScore :: "TestCaseResult list \<Rightarrow> js_number" where
  "overallScore rs =
     (if length rs = 0 then NaN
      else Num (fold (\<lambda>r sum. sum + score r) rs 0 / real (length rs)))"

text \<open>
  The run of one suite: \<open>net i\<close> is what the \<^verbatim>\<open>fetch\<close> of case \<open>i\<close> does,
  \<open>now\<close> the timestamp, \<open>order\<close> the completion order of the tasks. The pool has
  10 workers.
\<close>

definition suite_tasks :: "TestSuite \<Rightarrow> (nat \<Rightarrow> fetch_outcome) \<Rightarrow> TestCaseResult settled list" where
  "suite_tasks suite net =
     map (\<lambda>(i, testCase). Resolves (task testCase (net i)))
         (zip [0..<length (cases suite)] (cases suite))"

definition generateStaticResults ::
  "TestSuite \<Rightarrow> string \<Rightarrow> string \<Rightarrow> (nat \<Rightarrow> fetch_outcome) \<Rightarrow> nat list \<Rightarrow>
   (js_error + StaticSuiteResults) option" where
  "generateStaticResults suite apiUrl now net order =
     (case runWithConcurrency (suite_tasks suite net) 10 order of
        None \<Rightarrow> None
      | Some (Inl e) \<Rightarrow> Some (Inl e)
      | Some (Inr taskResults) \<Rightarrow>
          (case tally taskResults (0, 0, []) of
             Inl e \<Rightarrow> Some (Inl e)
           | Inr (npassed, nfailed, rs) \<Rightarrow>
               Some (Inr \<lparr>suite_id = test_set_id suite,
                          suite_version = version suite,
                          suite_description = ts_description suite,
                          generated_at = now,
                          api_endpoint = apiUrl,
                          total_cases = length (cases suite),
                          passed_cases = npassed,
                          failed_cases = nfailed,
                          overall_score = overallScore rs,
                          rep_cases = rs\<rparr>)))"

subsection \<open>Notions used in the statements\<close>

text \<open>
  The checks a result reports, in the order of its \<^verbatim>\<open>checks\<close> object: the three
  baseline checks, then the values of \<^verbatim>\<open>domains\<close> and of \<^verbatim>\<open>legal_flags\<close>.
\<close>

definition reported_checks :: "TestCaseResult \<Rightarrow> bool list" where
  "reported_checks r =
     [c_overall_severity (checks r), c_overall_imminence (checks r), c_confidence (checks r)]
     @ (case c_domains (checks r) of None \<Rightarrow> [] | Some m \<Rightarrow> map snd m)
     @ (case c_legal_flags (checks r) of None \<Rightarrow> [] | Some m \<Rightarrow> map snd m)"

text \<open>The keys a domain check can have.\<close>

definition domain_keys :: "string set" where
  "domain_keys = (\<Union>d. {domain_str d @ ''_severity'', domain_str d @ ''_confidence''})"

text \<open>
  The scenario of the specification: one case expecting severity \<^verbatim>\<open>high\<close> with no
  widening and a minimum confidence of 0.6; the classifier answers \<^verbatim>\<open>high\<close> with
  confidence \<open>c\<close>.
\<close>

definition scenario_case :: TestCase where
  "scenario_case =
     \<lparr>case_id = ''scenario'', description = ''high, no widening'', conversation = [],
      expected_overall_severity = S_high, acceptable_severities = None,
      expected_overall_imminence = I_urgent, acceptable_imminence = None,
      expected_min_confidence = 6 / 10, rationale = None, expected_domains = None,
      expected_legal_flags = None\<rparr>"

definition scenario_result :: "real \<Rightarrow> api_result" where
  "scenario_result c =
     \<lparr>r_global = \<lparr>g_overall_severity = ''high'', g_overall_imminence = ''urgent'',
                  g_primary_concerns = None\<rparr>,
      r_confidence = c, r_domains = [], r_legal_flags = None\<rparr>"

definition responds :: "api_result \<Rightarrow> fetch_outcome" where
  "responds result =
     Responded \<lparr>ok = True, status = 200, text_body = Inr [], json_body = Inr (Shaped result)\<rparr>"

text \<open>
  The acceptable sets of a case as sets of typed values: the widened list when the case
  supplies one, the baseline value alone otherwise.
\<close>

definition acceptable_severity_set :: "TestCase \<Rightarrow> Severity set" where
  "acceptable_severity_set tc =
     (case acceptable_severities tc of
        None \<Rightarrow> {expected_overall_severity tc}
      | Some xs \<Rightarrow> set xs)"

definition acceptable_imminence_set :: "TestCase \<Rightarrow> Imminence set" where
  "acceptable_imminence_set tc =
     (case acceptable_imminence tc of
        None \<Rightarrow> {expected_overall_imminence tc}
      | Some xs \<Rightarrow> set xs)"

text \<open>
  A case with baseline severity \<^verbatim>\<open>moderate\<close> widened to \<^verbatim>\<open>{moderate, high}\<close>, and a
  payload with given overall severity and imminence.
\<close>

definition widened_case :: TestCase where
  "widened_case =
     \<lparr>case_id = ''widened'', description = ''moderate or high'', conversation = [],
      expected_overall_severity = S_moderate, acceptable_severities = Some [S_moderate, S_high],
      expected_overall_imminence = I_subacute, acceptable_imminence = Some [I_subacute, I_urgent],
      expected_min_confidence = 5 / 10, rationale = None, expected_domains = None,
      expected_legal_flags = None\<rparr>"

definition overall_result :: "string \<Rightarrow> string \<Rightarrow> api_result" where
  "overall_result sev imm =
     \<lparr>r_global = \<lparr>g_overall_severity = sev, g_overall_imminence = imm,
                  g_primary_concerns = None\<rparr>,
      r_confidence = 8 / 10, r_domains = [], r_legal_flags = None\<rparr>"

text \<open>
  A case with one expected domain (\<^verbatim>\<open>self\<close>) and payloads with given domains.
\<close>

definition self_case :: "Severity option \<Rightarrow> Imminence option \<Rightarrow> real option \<Rightarrow> TestCase" where
  "self_case sev imm conf =
     \<lparr>case_id = ''self'', description = ''one expected domain'', conversation = [],
      expected_overall_severity = S_high, acceptable_severities = None,
      expected_overall_imminence = I_urgent, acceptable_imminence = None,
      expected_min_confidence = 6 / 10, rationale = None,
      expected_domains =
        Some [\<lparr>domain = D_self, min_severity = sev, min_imminence = imm,
               min_confidence = conf\<rparr>],
      expected_legal_flags = None\<rparr>"

definition self_domain :: "string \<Rightarrow> api_domain" where
  "self_domain sev =
     \<lparr>d_domain = ''self'', d_severity = sev, d_imminence = ''chronic'', d_confidence = 3 / 10,
      d_risk_features = None, d_protective_factors = None\<rparr>"

definition domain_result :: "api_domain list \<Rightarrow> api_result" where
  "domain_result ds =
     \<lparr>r_global = \<lparr>g_overall_severity = ''high'', g_overall_imminence = ''urgent'',
                  g_primary_concerns = None\<rparr>,
      r_confidence = 8 / 10, r_domains = ds, r_legal_flags = None\<rparr>"

text \<open>
  Two cases are identical except for the \<^verbatim>\<open>min_imminence\<close> values of their expected
  domains exactly when erasing those values makes them equal.
\<close>

definition drop_min_imminence :: "TestCase \<Rightarrow> TestCase" where
  "drop_min_imminence tc =
     tc\<lparr>expected_domains :=
          map_option (map (\<lambda>ed. ed\<lparr>min_imminence := None\<rparr>)) (expected_domains tc)\<rparr>"

text \<open>A minimum confidence of zero, taken as not declared.\<close>

definition drop_zero_confidence :: "TestCase \<Rightarrow> TestCase" where
  "drop_zero_confidence tc =
     tc\<lparr>expected_domains :=
          map_option (map (\<lambda>ed. if min_confidence ed = Some 0
                                 then ed\<lparr>min_confidence := None\<rparr> else ed))
            (expected_domains tc)\<rparr>"

text \<open>
  The scenario case, declaring the three boolean safeguarding flags and nothing else.
\<close>

definition safeguarding_case :: TestCase where
  "safeguarding_case =
     scenario_case\<lparr>expected_legal_flags :=
       Some \<lparr>duty_to_warn = None, child_safeguarding_urgent = Some True,
             vulnerable_adult_safeguarding = Some True, mash_rating = None,
             dash_rating = None, animal_cruelty = Some True\<rparr>\<rparr>"

text \<open>
  The invariant of the runner between two continuations: the cursor is within the task
  list; nothing is written beyond the cursor; every index a worker awaits is below the
  cursor and awaited by that worker alone; a worker returns only once the cursor is past
  the end; and every index below the cursor is either awaited or holds what its task
  settled to.
\<close>

definition awaiting :: "lane \<Rightarrow> bool" where
  "awaiting l = (l \<noteq> Finished)"

definition runner_inv :: "'a settled list \<Rightarrow> 'a runner \<Rightarrow> bool" where
  "runner_inv tasks s =
     (index s \<le> length tasks \<and>
      length (results s) \<le> index s \<and>
      (\<forall>k < length (workers s). \<forall>i. workers s ! k = Awaiting i \<longrightarrow> i < index s) \<and>
      (\<forall>k < length (workers s). \<forall>k' < length (workers s). \<forall>i.
          workers s ! k = Awaiting i \<and> workers s ! k' = Awaiting i \<longrightarrow> k = k') \<and>
      (index s < length tasks \<longrightarrow> (\<forall>k < length (workers s). workers s ! k \<noteq> Finished)) \<and>
      (\<forall>i < index s. (\<exists>k < length (workers s). workers s ! k = Awaiting i) \<or>
          (i < length (results s) \<and> results s ! i = stored (tasks ! i))))"

text \<open>How many settlements remain: the unclaimed tasks and the awaited ones.\<close>

definition remaining :: "'a settled list \<Rightarrow> 'a runner \<Rightarrow> nat" where
  "remaining tasks s = (length tasks - index s) + length (filter awaiting (workers s))"

text \<open>The results of the tasks of a suite, in the order of its cases.\<close>

definition suite_results :: "TestSuite \<Rightarrow> (nat \<Rightarrow> fetch_outcome) \<Rightarrow> TestCaseResult list" where
  "suite_results suite net =
     map (\<lambda>i. task (cases suite ! i) (net i)) [0..<length (cases suite)]"

text \<open>
  A suite of three cases: the first answered as expected, the second answered with a
  503, the third answered with two of its four checks failing.
\<close>

definition mixed_result :: api_result where
  "mixed_result =
     \<lparr>r_global = \<lparr>g_overall_severity = ''mild'', g_overall_imminence = ''urgent'',
                  g_primary_concerns = None\<rparr>,
      r_confidence = 8 / 10, r_domains = [self_domain ''moderate''], r_legal_flags = None\<rparr>"

definition demo_suite :: TestSuite where
  "demo_suite =
     \<lparr>test_set_id = ''demo'', version = ''1.0.0'', ts_description = ''three cases'',
      cases = [scenario_case, scenario_case, self_case (Some S_high) None None]\<rparr>"

definition unavailable :: fetch_outcome where
  "unavailable =
     Responded \<lparr>ok = False, status = 503, text_body = Inr ''unavailable'',
                json_body = Inl (Error ''Unexpected token'')\<rparr>"

definition demo_net :: "nat \<Rightarrow> fetch_outcome" where
  "demo_net i =
     (if i = 0 then responds (scenario_result (8 / 10))
      else if i = 1 then unavailable
      else responds mixed_result)"

text \<open>What a report says in numbers: the scores of its cases, the overall score and the counts.\<close>

definition report_summary :: "StaticSuiteResults \<Rightarrow> real list \<times> js_number \<times> nat \<times> nat \<times> nat" where
  "report_summary rep =
     (map score (rep_cases rep), overall_score rep, passed_cases rep, failed_cases rep,
      total_cases rep)"

text \<open>The \<^verbatim>\<open>actual\<close> and \<^verbatim>\<open>checks\<close> objects of the catch branch.\<close>

definition failed_actual :: actual_echo where
  "failed_actual =
     \<lparr>a_overall_severity = ''none'', a_overall_imminence = ''not_applicable'',
      a_confidence = 0, a_domains = [], a_legal_flags = None, a_primary_concerns = None\<rparr>"

definition failed_checks :: case_checks where
  "failed_checks =
     \<lparr>c_overall_severity = False, c_overall_imminence = False, c_confidence = False,
      c_domains = None, c_legal_flags = None\<rparr>"

text \<open>
  The domain check a result reports under a key, if any; a case without its \<open>i\<close>-th
  expected domain; and a case with two expected domains of the same tag, the first
  demanding \<^verbatim>\<open>high\<close>, the second \<^verbatim>\<open>mild\<close>.
\<close>

definition reported_domain_check :: "TestCaseResult \<Rightarrow> string \<Rightarrow> bool option" where
  "reported_domain_check res key =
     (case c_domains (checks res) of None \<Rightarrow> None | Some m \<Rightarrow> map_of m key)"

definition without_domain :: "nat \<Rightarrow> TestCase \<Rightarrow> TestCase" where
  "without_domain i tc =
     tc\<lparr>expected_domains :=
          map_option (\<lambda>eds. take i eds @ drop (Suc i) eds) (expected_domains tc)\<rparr>"

definition duplicate_case :: TestCase where
  "duplicate_case =
     scenario_case\<lparr>expected_domains :=
       Some [\<lparr>domain = D_self, min_severity = Some S_high, min_imminence = None,
              min_confidence = None\<rparr>,
             \<lparr>domain = D_self, min_severity = Some S_mild, min_imminence = None,
              min_confidence = None\<rparr>]\<rparr>"

section \<open>Properties\<close>

subsection \<open>The merged check map\<close>

text \<open>
  Writing a source whose keys are distinct and new to the object appends it. The keys
  of the three check maps are distinct and pairwise disjoint, so the spread
  \<^verbatim>\<open>{ ...checks, ...domainChecks, ...legalFlagChecks }\<close> is their concatenation.
\<close>

lemma fold_update_append:
  "distinct (map fst src) \<Longrightarrow> set (map fst src) \<inter> set (map fst obj) = {} \<Longrightarrow>
   fold (\<lambda>(k, v). AList.update k v) src obj = obj @ src"
proof (induction src arbitrary: obj)
  case Nil
  then show ?case by simp
next
  case (Cons kv src)
  obtain k v where kv: "kv = (k, v)" by (cases kv)
  from Cons.prems have notin: "k \<notin> set (map fst obj)" and d: "distinct (map fst src)"
    and k: "k \<notin> set (map fst src)" and dis: "set (map fst src) \<inter> set (map fst obj) = {}"
    by (auto simp: kv)
  have upd: "AList.update k v obj = obj @ [(k, v)]"
    using notin by (induction obj) auto
  have "fold (\<lambda>(k, v). AList.update k v) src (obj @ [(k, v)]) = (obj @ [(k, v)]) @ src"
    using d k dis by (intro Cons.IH) auto
  then show ?case by (simp add: kv upd)
qed

lemma check_domain_keys:
  "set (map fst (check_domain r ed dc)) \<subseteq>
     set (map fst dc) \<union>
       {domain_str (domain ed) @ ''_severity'', domain_str (domain ed) @ ''_confidence''}"
  by (auto simp: check_domain_def dom_update Let_def split: option.splits if_splits)

lemma check_domain_distinct:
  "distinct (map fst dc) \<Longrightarrow> distinct (map fst (check_domain r ed dc))"
  by (auto simp: check_domain_def distinct_update Let_def split: option.splits)

lemma fold_check_domain_keys:
  "set (map fst dc) \<subseteq> domain_keys \<Longrightarrow>
   set (map fst (fold (check_domain r) eds dc)) \<subseteq> domain_keys"
proof (induction eds arbitrary: dc)
  case Nil
  then show ?case by simp
next
  case (Cons ed eds)
  have "set (map fst (check_domain r ed dc)) \<subseteq> domain_keys"
    using check_domain_keys[of r ed dc] Cons.prems unfolding domain_keys_def by blast
  then show ?case using Cons.IH by simp
qed

lemma fold_check_domain_distinct:
  "distinct (map fst dc) \<Longrightarrow> distinct (map fst (fold (check_domain r) eds dc))"
  by (induction eds arbitrary: dc) (auto simp: check_domain_distinct)

lemma domain_checks_keys: "set (map fst (domain_checks tc r)) \<subseteq> domain_keys"
  using fold_check_domain_keys[of "[]"] by (auto simp: domain_checks_def split: option.splits)

lemma domain_checks_distinct: "distinct (map fst (domain_checks tc r))"
  using fold_check_domain_distinct[of "[]"] by (auto simp: domain_checks_def split: option.splits)

lemma legal_flag_checks_keys:
  "set (map fst (legal_flag_checks tc r)) \<subseteq> {''duty_to_warn'', ''mash_rating'', ''dash_rating''}"
  by (auto simp: legal_flag_checks_def dom_update Let_def split: option.splits)

lemma legal_flag_checks_distinct: "distinct (map fst (legal_flag_checks tc r))"
  by (auto simp: legal_flag_checks_def distinct_update Let_def split: option.splits)

lemma base_checks_keys:
  "map fst (base_checks tc r) = [''overall_severity'', ''overall_imminence'', ''confidence'']"
  by (simp add: base_checks_def)

lemma domain_keys_fresh:
  "k \<in> domain_keys \<Longrightarrow>
   k \<notin> {''overall_severity'', ''overall_imminence'', ''confidence'',
          ''duty_to_warn'', ''mash_rating'', ''dash_rating''}"
proof -
  assume "k \<in> domain_keys"
  then obtain d where "k = domain_str d @ ''_severity'' \<or> k = domain_str d @ ''_confidence''"
    by (auto simp: domain_keys_def)
  then show ?thesis by (cases d) auto
qed

lemma allChecks_append:
  "allChecks tc r = base_checks tc r @ domain_checks tc r @ legal_flag_checks tc r"
proof -
  let ?b = "base_checks tc r" and ?d = "domain_checks tc r" and ?l = "legal_flag_checks tc r"
  have b: "fold (\<lambda>(k, v). AList.update k v) ?b [] = ?b"
    using fold_update_append[of ?b "[]"] by (simp add: base_checks_keys)
  have "set (map fst ?d) \<inter> set (map fst ?b) = {}"
    using domain_checks_keys[of tc r] domain_keys_fresh by (fastforce simp: base_checks_keys)
  then have d: "fold (\<lambda>(k, v). AList.update k v) ?d ?b = ?b @ ?d"
    using fold_update_append[of ?d ?b] domain_checks_distinct by blast
  have "set (map fst ?l) \<inter> set (map fst (?b @ ?d)) = {}"
    using legal_flag_checks_keys[of tc r] domain_checks_keys[of tc r] domain_keys_fresh
    by (fastforce simp: base_checks_keys)
  then have l: "fold (\<lambda>(k, v). AList.update k v) ?l (?b @ ?d) = (?b @ ?d) @ ?l"
    using fold_update_append[of ?l "?b @ ?d"] legal_flag_checks_distinct by blast
  show ?thesis by (simp add: allChecks_def spread_def b d l)
qed

subsection \<open>Pass flag and score from the reported checks\<close>

lemma fraction_full:
  "xs \<noteq> [] \<Longrightarrow>
   (real (length (filter (\<lambda>v. v) xs)) / real (length xs) * 100 = 100) = list_all (\<lambda>v. v) xs"
proof -
  assume ne: "xs \<noteq> []"
  have "(length (filter (\<lambda>v. v) xs) = length xs) = list_all (\<lambda>v. v) xs"
    by (induction xs)
       (auto simp: le_imp_less_Suc nat_neq_iff dest: length_filter_le[THEN le_less_trans])
  then show ?thesis using ne by (simp add: field_simps)
qed

lemma non_empty_values:
  "(case non_empty m of None \<Rightarrow> [] | Some m' \<Rightarrow> map snd m') = map snd m"
  by (simp add: non_empty_def)

lemma reported_checks_success:
  "reported_checks (check_expectations tc r) = map snd (allChecks tc r)"
  by (simp add: reported_checks_def check_expectations_def Let_def non_empty_values
      allChecks_append) (simp add: base_checks_def)

lemma reported_checks_error: "reported_checks (error_result tc e) = [False, False, False]"
  by (simp add: reported_checks_def error_result_def)

lemma passed_success:
  "passed (check_expectations tc r) =
     list_all (\<lambda>v. v) (reported_checks (check_expectations tc r))"
  unfolding reported_checks_success by (simp add: check_expectations_def Let_def)

lemma score_success:
  "score (check_expectations tc r) =
     real (length (filter (\<lambda>v. v) (reported_checks (check_expectations tc r))))
       / real (length (reported_checks (check_expectations tc r))) * 100"
  unfolding reported_checks_success by (simp add: check_expectations_def Let_def)

lemma task_cases:
  "(\<exists>e. task tc fo = error_result tc e) \<or> (\<exists>r. task tc fo = check_expectations tc r)"
  by (simp add: task_def split: sum.split json_payload.split) blast

lemma passed_task: "passed (task tc fo) = list_all (\<lambda>v. v) (reported_checks (task tc fo))"
  using task_cases[of tc fo]
  by (auto simp: passed_success reported_checks_error) (simp add: error_result_def)

lemma score_task:
  "score (task tc fo) =
     real (length (filter (\<lambda>v. v) (reported_checks (task tc fo))))
       / real (length (reported_checks (task tc fo))) * 100"
  using task_cases[of tc fo]
  by (auto simp: score_success reported_checks_error) (simp add: error_result_def)

lemma reported_checks_nonempty: "reported_checks r \<noteq> []"
  by (simp add: reported_checks_def)

text \<open>Unfolding the task of a case whose classifier call answers with a payload.\<close>

lemma task_responds: "task tc (responds r) = check_expectations tc r"
  by (simp add: task_def responds_def callNopeAPI_def)

lemmas check_eval =
  check_expectations_def allChecks_def spread_def base_checks_def domain_checks_def
  legal_flag_checks_def acceptableSeverities_def acceptableImminence_def check_domain_def
  non_empty_def reported_checks_def severityLevels_def indexOf_def

subsection \<open>The baseline checks\<close>

lemma severity_str_inj: "severity_str a = severity_str b \<longleftrightarrow> a = b"
  by (cases a; cases b) simp_all

lemma imminence_str_inj: "imminence_str a = imminence_str b \<longleftrightarrow> a = b"
  by (cases a; cases b) simp_all

lemma acceptableSeverities_set:
  "set (acceptableSeverities tc) = severity_str ` acceptable_severity_set tc"
  by (simp add: acceptableSeverities_def acceptable_severity_set_def split: option.split)

lemma acceptableImminence_set:
  "set (acceptableImminence tc) = imminence_str ` acceptable_imminence_set tc"
  by (simp add: acceptableImminence_def acceptable_imminence_set_def split: option.split)

lemma checks_success:
  "checks (check_expectations tc r) =
     \<lparr>c_overall_severity = g_overall_severity (r_global r) \<in> set (acceptableSeverities tc),
      c_overall_imminence = g_overall_imminence (r_global r) \<in> set (acceptableImminence tc),
      c_confidence = (r_confidence r \<ge> expected_min_confidence tc),
      c_domains = non_empty (domain_checks tc r),
      c_legal_flags = non_empty (legal_flag_checks tc r)\<rparr>"
  by (simp add: check_expectations_def Let_def base_checks_def)

lemma actual_success:
  "a_overall_severity (actual (check_expectations tc r)) = g_overall_severity (r_global r)"
  "a_overall_imminence (actual (check_expectations tc r)) = g_overall_imminence (r_global r)"
  by (simp_all add: check_expectations_def Let_def)

subsection \<open>The domain checks\<close>

lemma severityLevels_index:
  "indexOf severityLevels (severity_str s) =
     (case s of S_none \<Rightarrow> 0 | S_mild \<Rightarrow> 1 | S_moderate \<Rightarrow> 2 | S_high \<Rightarrow> 3 | S_critical \<Rightarrow> 4)"
  by (cases s) (simp_all add: indexOf_def severityLevels_def)

lemma severity_str_nonempty: "severity_str m \<noteq> []"
  by (cases m) simp_all

lemma check_domain_absent:
  "find (\<lambda>d. d_domain d = domain_str (domain ed)) (r_domains r) = None \<Longrightarrow>
   check_domain r ed dc = dc"
  by (simp add: check_domain_def)

lemma check_domain_severity:
  "find (\<lambda>d. d_domain d = domain_str (domain ed)) (r_domains r) = Some ad \<Longrightarrow>
   min_severity ed = Some m \<Longrightarrow>
   map_of (check_domain r ed dc) (domain_str (domain ed) @ ''_severity'') =
     Some (indexOf severityLevels (d_severity ad) \<ge> indexOf severityLevels (severity_str m))"
  by (simp add: check_domain_def Let_def severity_str_nonempty update_conv' split: option.split)

lemma check_domain_min_imminence:
  "check_domain r (ed\<lparr>min_imminence := x\<rparr>) = check_domain r ed"
  by (rule ext) (simp add: check_domain_def Let_def split: option.split)

lemma domain_checks_drop_min_imminence:
  "domain_checks (drop_min_imminence tc) r = domain_checks tc r"
  by (simp add: domain_checks_def drop_min_imminence_def fold_map comp_def
      check_domain_min_imminence split: option.split)

lemma base_checks_drop_min_imminence:
  "base_checks (drop_min_imminence tc) r = base_checks tc r"
  by (simp add: base_checks_def drop_min_imminence_def acceptableSeverities_def
      acceptableImminence_def split: option.split)

lemma legal_flag_checks_drop_min_imminence:
  "legal_flag_checks (drop_min_imminence tc) r = legal_flag_checks tc r"
  by (simp add: legal_flag_checks_def drop_min_imminence_def Let_def split: option.split)

lemma verdict_success:
  "base_checks tc r = base_checks tc' r \<Longrightarrow> domain_checks tc r = domain_checks tc' r \<Longrightarrow>
   legal_flag_checks tc r = legal_flag_checks tc' r \<Longrightarrow>
   checks (check_expectations tc r) = checks (check_expectations tc' r) \<and>
   passed (check_expectations tc r) = passed (check_expectations tc' r) \<and>
   score (check_expectations tc r) = score (check_expectations tc' r)"
  by (simp add: check_expectations_def Let_def allChecks_def)

lemma verdict_error:
  "checks (error_result tc e) = checks (error_result tc' e) \<and>
   passed (error_result tc e) = passed (error_result tc' e) \<and>
   score (error_result tc e) = score (error_result tc' e)"
  by (simp add: error_result_def)

lemma verdict_task:
  assumes "\<And>r. base_checks tc r = base_checks tc' r"
    and "\<And>r. domain_checks tc r = domain_checks tc' r"
    and "\<And>r. legal_flag_checks tc r = legal_flag_checks tc' r"
  shows "checks (task tc fo) = checks (task tc' fo) \<and>
   passed (task tc fo) = passed (task tc' fo) \<and>
   score (task tc fo) = score (task tc' fo)"
  using assms verdict_success[of tc _ tc'] verdict_error[of tc _ tc']
  by (simp add: task_def split: sum.split json_payload.split)

lemma verdict_drop_min_imminence:
  "checks (task (drop_min_imminence tc) fo) = checks (task tc fo) \<and>
   passed (task (drop_min_imminence tc) fo) = passed (task tc fo) \<and>
   score (task (drop_min_imminence tc) fo) = score (task tc fo)"
  by (rule verdict_task)
     (simp_all add: base_checks_drop_min_imminence domain_checks_drop_min_imminence
        legal_flag_checks_drop_min_imminence)

lemma check_domain_zero_confidence:
  "min_confidence ed = Some 0 \<Longrightarrow>
   check_domain r ed = check_domain r (ed\<lparr>min_confidence := None\<rparr>)"
  by (rule ext) (simp add: check_domain_def Let_def split: option.split)

lemma check_domain_zero_confidence_key:
  "min_confidence ed = Some 0 \<Longrightarrow>
   map_of (check_domain r ed dc) (domain_str (domain ed) @ ''_confidence'')
     = map_of dc (domain_str (domain ed) @ ''_confidence'')"
  by (simp add: check_domain_def Let_def update_conv' split: option.split)

lemma check_domain_drop_zero:
  "check_domain r (if min_confidence ed = Some 0 then ed\<lparr>min_confidence := None\<rparr> else ed)
     = check_domain r ed"
  using check_domain_zero_confidence[of ed r] by simp

lemma domain_checks_drop_zero_confidence:
  "domain_checks (drop_zero_confidence tc) r = domain_checks tc r"
  by (simp add: domain_checks_def drop_zero_confidence_def fold_map comp_def
      check_domain_drop_zero split: option.split)

lemma base_checks_drop_zero_confidence:
  "base_checks (drop_zero_confidence tc) r = base_checks tc r"
  by (simp add: base_checks_def drop_zero_confidence_def acceptableSeverities_def
      acceptableImminence_def split: option.split)

lemma legal_flag_checks_drop_zero_confidence:
  "legal_flag_checks (drop_zero_confidence tc) r = legal_flag_checks tc r"
  by (simp add: legal_flag_checks_def drop_zero_confidence_def Let_def split: option.split)

lemma verdict_drop_zero_confidence:
  "checks (task tc fo) = checks (task (drop_zero_confidence tc) fo) \<and>
   passed (task tc fo) = passed (task (drop_zero_confidence tc) fo) \<and>
   score (task tc fo) = score (task (drop_zero_confidence tc) fo)"
  by (rule verdict_task)
     (simp_all add: base_checks_drop_zero_confidence domain_checks_drop_zero_confidence
        legal_flag_checks_drop_zero_confidence)

subsection \<open>The legal flag checks\<close>

text \<open>
  The three flags the code has a branch for: each declared one yields the check of its
  name, a strict comparison with \<^verbatim>\<open>.present\<close> or \<^verbatim>\<open>.level\<close> of the payload.
\<close>

lemma legal_flag_checks_handled:
  assumes "expected_legal_flags tc = Some ef"
  shows "map_of (legal_flag_checks tc r) ''duty_to_warn'' =
           map_option (\<lambda>b. Option.bind (Option.bind (r_legal_flags r) lf_duty_to_warn) present
                              = Some b) (duty_to_warn ef)"
    and "map_of (legal_flag_checks tc r) ''mash_rating'' =
           map_option (\<lambda>m. Option.bind (Option.bind (r_legal_flags r) lf_mash_rating) level
                              = Some (mash_str m)) (mash_rating ef)"
    and "map_of (legal_flag_checks tc r) ''dash_rating'' =
           map_option (\<lambda>d. Option.bind (Option.bind (r_legal_flags r) lf_dash_rating) level
                              = Some (dash_str d)) (dash_rating ef)"
  using assms
  by (simp_all add: legal_flag_checks_def Let_def update_conv' split: option.split)

subsection \<open>The runner\<close>

lemma start_workers_eq:
  "idx + w \<le> n \<Longrightarrow> start_workers n w idx = (map Awaiting [idx..<idx + w], idx + w)"
proof (induction w arbitrary: idx)
  case 0
  then show ?case by simp
next
  case (Suc w)
  then have "start_workers n w (Suc idx) = (map Awaiting [Suc idx..<Suc idx + w], Suc idx + w)"
    by simp
  with Suc.prems show ?case
    by (simp add: runNext_claim_def upt_conv_Cons)
qed

lemma init_eq:
  "init tasks c =
     \<lparr>index = min c (length tasks), results = [],
      workers = map Awaiting [0..<min c (length tasks)]\<rparr>"
  using start_workers_eq[of 0 "min c (length tasks)" "length tasks"]
  by (simp add: init_def)

lemma runner_inv_init: "runner_inv tasks (init tasks c)"
  by (auto simp: runner_inv_def init_eq)

lemma js_store_length: "length (js_store xs i v) = max (length xs) (Suc i)"
  by (simp add: js_store_def)

lemma js_store_same: "js_store xs i v ! i = v"
  by (simp add: js_store_def nth_append)

lemma js_store_other: "j \<noteq> i \<Longrightarrow> j < length xs \<Longrightarrow> js_store xs i v ! j = xs ! j"
  by (simp add: js_store_def nth_append)

lemma resume_claim:
  "workers s ! k = Awaiting i \<Longrightarrow> index s < length tasks \<Longrightarrow>
   resume tasks k s =
     \<lparr>index = Suc (index s), results = js_store (results s) i (stored (tasks ! i)),
      workers = (workers s)[k := Awaiting (index s)]\<rparr>"
  by (simp add: resume_def runNext_claim_def)

lemma resume_finish:
  "workers s ! k = Awaiting i \<Longrightarrow> \<not> index s < length tasks \<Longrightarrow>
   resume tasks k s =
     \<lparr>index = index s, results = js_store (results s) i (stored (tasks ! i)),
      workers = (workers s)[k := Finished]\<rparr>"
  by (simp add: resume_def runNext_claim_def)

lemma runner_inv_step:
  assumes inv: "runner_inv tasks s" and k: "k < length (workers s)"
    and aw: "workers s ! k = Awaiting i"
    and l: "l = (if index s < length tasks then Awaiting (index s) else Finished)"
    and idx: "idx = (if index s < length tasks then Suc (index s) else index s)"
  shows "runner_inv tasks
           \<lparr>index = idx, results = js_store (results s) i (stored (tasks ! i)),
            workers = (workers s)[k := l]\<rparr>"
proof -
  let ?ws = "workers s" and ?res = "results s"
  let ?ws' = "?ws[k := l]" and ?res' = "js_store ?res i (stored (tasks ! i))"
  from inv have n: "index s \<le> length tasks" and len: "length ?res \<le> index s"
    and below: "\<And>k j. k < length ?ws \<Longrightarrow> ?ws ! k = Awaiting j \<Longrightarrow> j < index s"
    and inj: "\<And>k k' j. k < length ?ws \<Longrightarrow> k' < length ?ws \<Longrightarrow> ?ws ! k = Awaiting j \<Longrightarrow>
                ?ws ! k' = Awaiting j \<Longrightarrow> k = k'"
    and busy: "\<And>k. index s < length tasks \<Longrightarrow> k < length ?ws \<Longrightarrow> ?ws ! k \<noteq> Finished"
    and fin: "\<And>j. j < index s \<Longrightarrow> (\<exists>k < length ?ws. ?ws ! k = Awaiting j) \<or>
                (j < length ?res \<and> ?res ! j = stored (tasks ! j))"
    unfolding runner_inv_def by blast+
  from below[OF k aw] have i: "i < index s" .
  have 1: "idx \<le> length tasks" using n idx by simp
  have 2: "length ?res' \<le> idx" using len i idx by (simp add: js_store_length)
  have 3: "j < idx" if "k' < length ?ws'" "?ws' ! k' = Awaiting j" for k' j
  proof (cases "k' = k")
    case True
    with that k l idx show ?thesis by (simp split: if_splits)
  next
    case False
    with that have "?ws ! k' = Awaiting j" "k' < length ?ws" by simp_all
    from below[OF this(2) this(1)] idx show ?thesis by simp
  qed
  have 4: "k1 = k2" if "k1 < length ?ws'" "k2 < length ?ws'" "?ws' ! k1 = Awaiting j"
    "?ws' ! k2 = Awaiting j" for k1 k2 j
  proof -
    have fresh: False if "k' < length ?ws" "k' \<noteq> k" "?ws ! k' = Awaiting j" 
      "?ws' ! k = Awaiting j" for k'
    proof -
      from that(4) k l have "j = index s" by (simp split: if_splits)
      with below[OF that(1) that(3)] show False by simp
    qed
    show ?thesis
    proof (cases "k1 = k"; cases "k2 = k")
      assume "k1 \<noteq> k" "k2 \<noteq> k"
      with that show ?thesis using inj[of k1 k2 j] by simp
    next
      assume "k1 = k" "k2 \<noteq> k"
      with that fresh[of k2] show ?thesis by simp
    next
      assume "k1 \<noteq> k" "k2 = k"
      with that fresh[of k1] show ?thesis by simp
    qed simp
  qed
  have 5: "?ws' ! k' \<noteq> Finished" if "idx < length tasks" "k' < length ?ws'" for k'
  proof -
    from that(1) idx have lt: "index s < length tasks" by (simp split: if_splits)
    show ?thesis
    proof (cases "k' = k")
      case True
      with k l lt show ?thesis by simp
    next
      case False
      with that(2) busy[OF lt, of k'] show ?thesis by simp
    qed
  qed
  have 6: "(\<exists>k' < length ?ws'. ?ws' ! k' = Awaiting j) \<or>
           (j < length ?res' \<and> ?res' ! j = stored (tasks ! j))" if "j < idx" for j
  proof (cases "j = i")
    case True
    then show ?thesis by (simp add: js_store_length js_store_same less_max_iff_disj)
  next
    case ji: False
    show ?thesis
    proof (cases "j < index s")
      case True
      from fin[OF True] show ?thesis
      proof
        assume "\<exists>k' < length ?ws. ?ws ! k' = Awaiting j"
        then obtain k' where k': "k' < length ?ws" "?ws ! k' = Awaiting j" by blast
        with aw ji have "k' \<noteq> k" by auto
        with k' have "k' < length ?ws' \<and> ?ws' ! k' = Awaiting j" by simp
        then show ?thesis by blast
      next
        assume "j < length ?res \<and> ?res ! j = stored (tasks ! j)"
        with ji show ?thesis by (simp add: js_store_length js_store_other less_max_iff_disj)
      qed
    next
      case False
      with that idx have "j = index s" "index s < length tasks" by (simp_all split: if_splits)
      with k l have "k < length ?ws' \<and> ?ws' ! k = Awaiting j" by simp
      then show ?thesis by blast
    qed
  qed
  show ?thesis
    unfolding runner_inv_def using 1 2 3 4 5 6 by simp
qed

lemma resume_eq:
  "workers s ! k = Awaiting i \<Longrightarrow>
   resume tasks k s =
     \<lparr>index = (if index s < length tasks then Suc (index s) else index s),
      results = js_store (results s) i (stored (tasks ! i)),
      workers = (workers s)[k := (if index s < length tasks then Awaiting (index s) else Finished)]\<rparr>"
  by (simp add: resume_def runNext_claim_def)

lemma runner_inv_resume:
  assumes "runner_inv tasks s" "k < length (workers s)" "workers s ! k = Awaiting i"
  shows "runner_inv tasks (resume tasks k s)"
  unfolding resume_eq[OF assms(3)] using assms by (rule runner_inv_step) simp_all

lemma runner_inv_run:
  "runner_inv tasks s \<Longrightarrow> run tasks order s = Some s' \<Longrightarrow> runner_inv tasks s'"
proof (induction order arbitrary: s)
  case Nil
  then show ?case by simp
next
  case (Cons k order)
  from Cons.prems(2) have k: "k < length (workers s)" and nf: "workers s ! k \<noteq> Finished"
    and rest: "run tasks order (resume tasks k s) = Some s'"
    by (simp_all split: if_splits)
  from nf obtain i where "workers s ! k = Awaiting i" by (cases "workers s ! k") simp_all
  with Cons.prems(1) k have "runner_inv tasks (resume tasks k s)" by (rule runner_inv_resume)
  then show ?case using rest by (rule Cons.IH)
qed

lemma workers_resume: "length (workers (resume tasks k s)) = length (workers s)"
  by (simp add: resume_def runNext_claim_def split: lane.split)

lemma workers_run: "run tasks order s = Some s' \<Longrightarrow> length (workers s') = length (workers s)"
  by (induction order arbitrary: s) (auto simp: workers_resume split: if_splits)

lemma set_in_flight:
  "set (in_flight s) = {i. \<exists>k < length (workers s). workers s ! k = Awaiting i}"
proof -
  have "set (concat (map (\<lambda>l. case l of Awaiting i \<Rightarrow> [i] | Finished \<Rightarrow> []) ws))
          = {i. Awaiting i \<in> set ws}" for ws
    by (induction ws) (auto split: lane.splits)
  then show ?thesis by (auto simp: in_flight_def in_set_conv_nth)
qed

lemma all_done_iff: "all_done s \<longleftrightarrow> (\<forall>k < length (workers s). workers s ! k = Finished)"
proof -
  have "all_done s \<longleftrightarrow> set (in_flight s) = {}" by (simp add: all_done_def)
  also have "\<dots> \<longleftrightarrow> (\<forall>k < length (workers s). workers s ! k = Finished)"
    unfolding set_in_flight
  proof
    assume e: "{i. \<exists>k<length (workers s). workers s ! k = Awaiting i} = {}"
    show "\<forall>k<length (workers s). workers s ! k = Finished"
    proof (intro allI impI)
      fix k assume "k < length (workers s)"
      with e show "workers s ! k = Finished" by (cases "workers s ! k") auto
    qed
  qed auto
  finally show ?thesis .
qed

lemma length_in_flight: "length (in_flight s) = length (filter awaiting (workers s))"
proof -
  have "length (concat (map (\<lambda>l. case l of Awaiting i \<Rightarrow> [i] | Finished \<Rightarrow> []) ws))
          = length (filter awaiting ws)" for ws
    by (induction ws) (auto simp: awaiting_def split: lane.splits)
  then show ?thesis by (simp add: in_flight_def)
qed

lemma distinct_in_flight_aux:
  "(\<forall>k < length ws. \<forall>k' < length ws. \<forall>i. ws ! k = Awaiting i \<and> ws ! k' = Awaiting i \<longrightarrow> k = k')
   \<Longrightarrow> distinct (concat (map (\<lambda>l. case l of Awaiting i \<Rightarrow> [i] | Finished \<Rightarrow> []) ws))"
proof (induction ws)
  case Nil
  then show ?case by simp
next
  case (Cons l ws)
  let ?f = "\<lambda>l. case l of Awaiting i \<Rightarrow> [i] | Finished \<Rightarrow> []"
  have tail: "\<forall>k < length ws. \<forall>k' < length ws. \<forall>i.
      ws ! k = Awaiting i \<and> ws ! k' = Awaiting i \<longrightarrow> k = k'"
  proof (intro allI impI)
    fix k k' i assume "k < length ws" "k' < length ws" "ws ! k = Awaiting i \<and> ws ! k' = Awaiting i"
    with Cons.prems[rule_format, of "Suc k" "Suc k'" i] show "k = k'" by simp
  qed
  have d: "distinct (concat (map ?f ws))" using Cons.IH[OF tail] .
  show ?case
  proof (cases l)
    case Finished
    with d show ?thesis by simp
  next
    case (Awaiting i)
    have "i \<notin> set (concat (map ?f ws))"
    proof
      assume "i \<in> set (concat (map ?f ws))"
      then have "Awaiting i \<in> set ws" by (auto split: lane.splits)
      then obtain k where "k < length ws" "ws ! k = Awaiting i" by (auto simp: in_set_conv_nth)
      with Cons.prems[rule_format, of 0 "Suc k" i] Awaiting show False by simp
    qed
    with d Awaiting show ?thesis by simp
  qed
qed

lemma distinct_in_flight: "runner_inv tasks s \<Longrightarrow> distinct (in_flight s)"
  unfolding in_flight_def by (rule distinct_in_flight_aux) (simp add: runner_inv_def)

lemma final_index:
  assumes inv: "runner_inv tasks s" and fin: "all_done s"
    and live: "workers s \<noteq> [] \<or> tasks = []"
  shows "index s = length tasks"
proof (rule ccontr)
  assume ne: "index s \<noteq> length tasks"
  with inv have lt: "index s < length tasks" by (simp add: runner_inv_def)
  then have "tasks \<noteq> []" by auto
  with live have "0 < length (workers s)" by simp
  moreover from inv lt have "\<forall>k < length (workers s). workers s ! k \<noteq> Finished"
    by (simp add: runner_inv_def)
  ultimately show False using fin by (auto simp: all_done_iff)
qed

lemma final_results:
  assumes inv: "runner_inv tasks s" and fin: "all_done s"
    and live: "workers s \<noteq> [] \<or> tasks = []"
  shows "results s = map stored tasks"
proof -
  have idx: "index s = length tasks" using assms by (rule final_index)
  have each: "i < length (results s) \<and> results s ! i = stored (tasks ! i)"
    if "i < length tasks" for i
  proof -
    from inv that idx
    have "(\<exists>k < length (workers s). workers s ! k = Awaiting i) \<or>
          (i < length (results s) \<and> results s ! i = stored (tasks ! i))"
      by (simp add: runner_inv_def)
    with fin show ?thesis by (auto simp: all_done_iff)
  qed
  have le: "length (results s) \<le> length tasks" using inv idx by (simp add: runner_inv_def)
  have "length (results s) = length tasks"
  proof (cases "tasks = []")
    case True
    with le show ?thesis by simp
  next
    case False
    then have "length tasks - 1 < length tasks" by simp
    from each[OF this] have "length tasks - 1 < length (results s)" by simp
    with le show ?thesis by arith
  qed
  then show ?thesis using each by (intro nth_equalityI) simp_all
qed

lemma filter_update_length:
  "k < length xs \<Longrightarrow>
   length (filter P (xs[k := y])) + (if P (xs ! k) then 1 else 0)
     = length (filter P xs) + (if P y then 1 else 0)"
proof (induction xs arbitrary: k)
  case Nil
  then show ?case by simp
next
  case (Cons x xs)
  then show ?case by (cases k) auto
qed

lemma remaining_resume:
  assumes inv: "runner_inv tasks s" and k: "k < length (workers s)"
    and aw: "workers s ! k = Awaiting i"
  shows "Suc (remaining tasks (resume tasks k s)) = remaining tasks s"
proof -
  from inv have n: "index s \<le> length tasks" by (simp add: runner_inv_def)
  show ?thesis
    using filter_update_length[OF k, of awaiting "Awaiting (index s)"]
      filter_update_length[OF k, of awaiting Finished] n aw
    by (auto simp: remaining_def resume_eq[OF aw] awaiting_def)
qed

lemma remaining_run:
  "runner_inv tasks s \<Longrightarrow> run tasks order s = Some s' \<Longrightarrow>
   remaining tasks s' + length order = remaining tasks s"
proof (induction order arbitrary: s)
  case Nil
  then show ?case by simp
next
  case (Cons k order)
  from Cons.prems(2) have k: "k < length (workers s)" and nf: "workers s ! k \<noteq> Finished"
    and rest: "run tasks order (resume tasks k s) = Some s'"
    by (simp_all split: if_splits)
  from nf obtain i where aw: "workers s ! k = Awaiting i" by (cases "workers s ! k") simp_all
  have "runner_inv tasks (resume tasks k s)" using Cons.prems(1) k aw by (rule runner_inv_resume)
  from Cons.IH[OF this rest] remaining_resume[OF Cons.prems(1) k aw] show ?case by simp
qed

lemma remaining_init: "remaining tasks (init tasks c) = length tasks"
  by (simp add: remaining_def init_eq awaiting_def)

lemma remaining_final:
  assumes "runner_inv tasks s" "all_done s" "workers s \<noteq> [] \<or> tasks = []"
  shows "remaining tasks s = 0"
proof -
  have "index s = length tasks" using assms by (rule final_index)
  moreover have "filter awaiting (workers s) = []"
    using assms(2) by (auto simp: all_done_iff awaiting_def filter_empty_conv in_set_conv_nth)
  ultimately show ?thesis by (simp add: remaining_def)
qed

lemma run_append:
  "run tasks (a @ b) s = (case run tasks a s of None \<Rightarrow> None | Some s' \<Rightarrow> run tasks b s')"
  by (induction a arbitrary: s) simp_all

lemma run_completes:
  "runner_inv tasks s \<Longrightarrow> \<exists>rest s'. run tasks rest s = Some s' \<and> all_done s'"
proof (induction "remaining tasks s" arbitrary: s)
  case 0
  then have "filter awaiting (workers s) = []" by (simp add: remaining_def)
  then have "all_done s"
    by (auto simp: all_done_iff awaiting_def filter_empty_conv)
  then have "run tasks [] s = Some s \<and> all_done s" by simp
  then show ?case by blast
next
  case (Suc m)
  show ?case
  proof (cases "all_done s")
    case True
    then have "run tasks [] s = Some s \<and> all_done s" by simp
    then show ?thesis by blast
  next
    case False
    then obtain k where k: "k < length (workers s)" and nf: "workers s ! k \<noteq> Finished"
      by (auto simp: all_done_iff)
    from nf obtain i where aw: "workers s ! k = Awaiting i" by (cases "workers s ! k") simp_all
    have inv': "runner_inv tasks (resume tasks k s)"
      using Suc.prems k aw by (rule runner_inv_resume)
    from remaining_resume[OF Suc.prems k aw] Suc.hyps(2)
    have "m = remaining tasks (resume tasks k s)" by simp
    from Suc.hyps(1)[OF this inv'] obtain rest s'
      where "run tasks rest (resume tasks k s) = Some s'" "all_done s'" by blast
    with k nf have "run tasks (k # rest) s = Some s' \<and> all_done s'" by simp
    then show ?thesis by blast
  qed
qed

lemma runWithConcurrency_run:
  assumes "runWithConcurrency tasks C order = Some out" "0 \<le> C"
  obtains s where "run tasks order (init tasks (nat C)) = Some s" "all_done s"
    "out = Inr (results s)"
  using assms by (auto simp: runWithConcurrency_def split: option.splits if_splits)

lemma live_workers:
  assumes "1 \<le> C" "run tasks order (init tasks (nat C)) = Some s"
  shows "workers s \<noteq> [] \<or> tasks = []"
proof -
  have "length (workers s) = min (nat C) (length tasks)"
    using workers_run[OF assms(2)] by (simp add: init_eq)
  with assms(1) show ?thesis by (cases tasks) auto
qed

lemma runWithConcurrency_result:
  assumes C: "1 \<le> C" and out: "runWithConcurrency tasks C order = Some out"
  shows "out = Inr (map stored tasks)"
proof -
  from C have "0 \<le> C" by simp
  with out obtain s where s: "run tasks order (init tasks (nat C)) = Some s" "all_done s"
    "out = Inr (results s)" by (rule runWithConcurrency_run)
  have "runner_inv tasks s" using runner_inv_init s(1) by (rule runner_inv_run)
  then have "results s = map stored tasks"
    using s(2) live_workers[OF C s(1)] by (rule final_results)
  with s(3) show ?thesis by simp
qed

lemma runWithConcurrency_completes:
  assumes C: "1 \<le> C" and s: "run tasks order (init tasks (nat C)) = Some s"
  shows "\<exists>rest. runWithConcurrency tasks C (order @ rest) = Some (Inr (map stored tasks)) \<and>
                length (order @ rest) = length tasks"
proof -
  have inv: "runner_inv tasks s" using runner_inv_init s by (rule runner_inv_run)
  from run_completes[OF inv] obtain rest s'
    where rest: "run tasks rest s = Some s'" and fin: "all_done s'" by blast
  have whole: "run tasks (order @ rest) (init tasks (nat C)) = Some s'"
    by (simp add: run_append s rest)
  have inv': "runner_inv tasks s'" using runner_inv_init whole by (rule runner_inv_run)
  have live: "workers s' \<noteq> [] \<or> tasks = []" using C whole by (rule live_workers)
  have res: "results s' = map stored tasks" using inv' fin live by (rule final_results)
  have "remaining tasks s' + length (order @ rest) = remaining tasks (init tasks (nat C))"
    using runner_inv_init whole by (rule remaining_run)
  then have len: "length (order @ rest) = length tasks"
    using remaining_final[OF inv' fin live] by (simp add: remaining_init)
  from C whole fin res have "runWithConcurrency tasks C (order @ rest) = Some (Inr (map stored tasks))"
    by (simp add: runWithConcurrency_def)
  with len show ?thesis by blast
qed

lemma suite_tasks_stored:
  "map stored (suite_tasks suite net) = map Val (suite_results suite net)"
  by (rule nth_equalityI) (simp_all add: suite_tasks_def suite_results_def)

lemma tally_vals:
  "tally (map Val rs) (p, f, acc) =
     Inr (p + length (filter passed rs), f + length (filter (\<lambda>r. \<not> passed r) rs), acc @ rs)"
  by (induction rs arbitrary: p f acc) simp_all

lemma generateStaticResults_report:
  assumes "generateStaticResults suite apiUrl now net order = Some out"
  shows "out = Inr \<lparr>suite_id = test_set_id suite, suite_version = version suite,
                    suite_description = ts_description suite, generated_at = now,
                    api_endpoint = apiUrl, total_cases = length (cases suite),
                    passed_cases = length (filter passed (suite_results suite net)),
                    failed_cases = length (filter (\<lambda>r. \<not> passed r) (suite_results suite net)),
                    overall_score = overallScore (suite_results suite net),
                    rep_cases = suite_results suite net\<rparr>"
proof -
  from assms obtain o1 where o1: "runWithConcurrency (suite_tasks suite net) 10 order = Some o1"
    by (auto simp: generateStaticResults_def split: option.splits)
  then have "o1 = Inr (map stored (suite_tasks suite net))"
    by (intro runWithConcurrency_result[of 10]) simp_all
  with assms o1 show ?thesis
    by (simp add: generateStaticResults_def suite_tasks_stored tally_vals)
qed

lemma generateStaticResults_completes:
  "\<exists>order. generateStaticResults suite apiUrl now net order \<noteq> None \<and>
           length order = length (cases suite)"
proof -
  have "run (suite_tasks suite net) [] (init (suite_tasks suite net) (nat 10))
          = Some (init (suite_tasks suite net) (nat 10))" by simp
  from runWithConcurrency_completes[OF _ this] obtain rest
    where "runWithConcurrency (suite_tasks suite net) 10 rest
             = Some (Inr (map stored (suite_tasks suite net)))"
      "length rest = length (suite_tasks suite net)" by auto
  then have "generateStaticResults suite apiUrl now net rest \<noteq> None"
    "length rest = length (cases suite)"
    by (simp_all add: generateStaticResults_def suite_tasks_stored tally_vals)
       (simp add: suite_tasks_def)
  then show ?thesis by blast
qed

lemma fold_score: "fold (\<lambda>r sum. sum + score r) rs a = a + sum_list (map score rs)"
  by (induction rs arbitrary: a) simp_all

lemma overallScore_mean:
  "overallScore rs =
     (if rs = [] then NaN else Num (sum_list (map score rs) / real (length rs)))"
  by (simp add: overallScore_def fold_score)

lemma run_prefix:
  "run tasks (a @ b) s \<noteq> None \<Longrightarrow> \<exists>s1. run tasks a s = Some s1"
  by (simp add: run_append split: option.splits)

lemma in_flight_bound:
  assumes "run tasks order (init tasks c) = Some s"
  shows "length (in_flight s) \<le> c"
proof -
  have "length (in_flight s) \<le> length (workers s)" by (simp add: length_in_flight)
  also have "\<dots> = min c (length tasks)" using workers_run[OF assms] by (simp add: init_eq)
  finally show ?thesis by simp
qed

lemmas runner_eval =
  runWithConcurrency_def init_eq resume_def runNext_claim_def js_store_def all_done_def
  in_flight_def

subsection \<open>The report and the example suite\<close>

lemma demo_results:
  "map score (suite_results demo_suite demo_net) = [100, 0, 50]"
  "map passed (suite_results demo_suite demo_net) = [True, False, False]"
  "map error (suite_results demo_suite demo_net) = [None, Some ''API error (503): unavailable'', None]"
  by (simp_all add: suite_results_def demo_suite_def demo_net_def upt_rec task_responds)
     (simp_all add: check_eval task_def callNopeAPI_def unavailable_def error_result_def
         show_nat.simps digit_def scenario_case_def scenario_result_def self_case_def
         mixed_result_def self_domain_def)

lemma demo_counts:
  "length (suite_results demo_suite demo_net) = 3"
  "length (filter passed (suite_results demo_suite demo_net)) = 1"
  "length (filter (\<lambda>r. \<not> passed r) (suite_results demo_suite demo_net)) = 2"
proof -
  let ?rs = "suite_results demo_suite demo_net"
  show "length ?rs = 3" by (simp add: suite_results_def demo_suite_def)
  have "length (filter passed ?rs) = length (filter (\<lambda>b. b) (map passed ?rs))"
    by (simp add: length_filter_map comp_def)
  then show "length (filter passed ?rs) = 1" unfolding demo_results by simp
  have "length (filter (\<lambda>r. \<not> passed r) ?rs) = length (filter (\<lambda>b. \<not> b) (map passed ?rs))"
    by (simp add: length_filter_map comp_def)
  then show "length (filter (\<lambda>r. \<not> passed r) ?rs) = 2" unfolding demo_results by simp
qed

lemma demo_run:
  "runWithConcurrency (suite_tasks demo_suite demo_net) 10 [2, 0, 1]
     = Some (Inr (map Val (suite_results demo_suite demo_net)))"
  by (simp add: suite_tasks_def suite_results_def demo_suite_def upt_rec runner_eval)

lemma demo_run_in_order:
  "runWithConcurrency (suite_tasks demo_suite demo_net) 10 [0, 1, 2]
     = Some (Inr (map Val (suite_results demo_suite demo_net)))"
  by (simp add: suite_tasks_def suite_results_def demo_suite_def upt_rec runner_eval)

lemma demo_report:
  "\<exists>rep. generateStaticResults demo_suite url now demo_net [2, 0, 1] = Some (Inr rep)"
  unfolding generateStaticResults_def demo_run by (simp add: tally_vals)

lemma task_failed:
  "callNopeAPI fo = Inl e \<or> callNopeAPI fo = Inr (Misshapen e) \<Longrightarrow>
   task tc fo = error_result tc e"
  by (auto simp: task_def)

lemma callNopeAPI_not_ok:
  "\<not> ok resp \<Longrightarrow> text_body resp = Inr body \<Longrightarrow>
   callNopeAPI (Responded resp)
     = Inl (Error (''API error ('' @ show_nat (status resp) @ ''): '' @ body))"
  by (simp add: callNopeAPI_def)

subsection \<open>The domain checks a case reports\<close>

text \<open>
  The loop writes one entry per key, so what a case reports under
  \<^verbatim>\<open><domain>_severity\<close> is what the last expected domain of that tag with a declared
  minimum severity wrote; entries of other tags, and entries whose tag no actual domain
  has, leave the key alone.
\<close>

lemma domain_str_inj: "domain_str a = domain_str b \<longleftrightarrow> a = b"
  by (cases a; cases b) simp_all

lemma severity_key_not_confidence:
  "domain_str a @ ''_confidence'' \<noteq> domain_str b @ ''_severity''"
  by (cases a; cases b) simp_all

lemma reported_domain_check_success:
  "reported_domain_check (check_expectations tc r) key = map_of (domain_checks tc r) key"
  by (simp add: reported_domain_check_def checks_success non_empty_def)

lemma check_domain_other_tag:
  "domain ed \<noteq> d \<Longrightarrow>
   map_of (check_domain r ed dc) (domain_str d @ ''_severity'')
     = map_of dc (domain_str d @ ''_severity'') \<and>
   map_of (check_domain r ed dc) (domain_str d @ ''_confidence'')
     = map_of dc (domain_str d @ ''_confidence'')"
  using severity_key_not_confidence[of "domain ed" d] severity_key_not_confidence[of d "domain ed"]
  by (auto simp: check_domain_def Let_def update_conv' domain_str_inj split: option.split)

lemma check_domain_no_min_severity:
  "min_severity ed = None \<Longrightarrow>
   map_of (check_domain r ed dc) (domain_str d @ ''_severity'')
     = map_of dc (domain_str d @ ''_severity'')"
  using severity_key_not_confidence[of "domain ed" d]
  by (auto simp: check_domain_def Let_def update_conv' split: option.split)

lemma fold_check_domain_kept:
  assumes "\<forall>ed \<in> set eds. domain ed = d \<longrightarrow> min_severity ed = None"
  shows "map_of (fold (check_domain r) eds dc) (domain_str d @ ''_severity'')
           = map_of dc (domain_str d @ ''_severity'')"
  using assms
proof (induction eds arbitrary: dc)
  case Nil
  then show ?case by simp
next
  case (Cons ed eds)
  have "map_of (check_domain r ed dc) (domain_str d @ ''_severity'')
          = map_of dc (domain_str d @ ''_severity'')"
  proof (cases "domain ed = d")
    case True
    with Cons.prems have "min_severity ed = None" by simp
    then show ?thesis by (rule check_domain_no_min_severity)
  next
    case False
    then show ?thesis by (simp add: check_domain_other_tag)
  qed
  with Cons show ?case by simp
qed

lemma check_domain_present_kept:
  "map_of dc key \<noteq> None \<Longrightarrow> map_of (check_domain r ed dc) key \<noteq> None"
  by (auto simp: check_domain_def Let_def update_conv' split: option.split)

lemma fold_check_domain_present_kept:
  "map_of dc key \<noteq> None \<Longrightarrow> map_of (fold (check_domain r) eds dc) key \<noteq> None"
proof (induction eds arbitrary: dc)
  case Nil
  then show ?case by simp
next
  case (Cons ed eds)
  from Cons.prems have "map_of (check_domain r ed dc) key \<noteq> None"
    by (rule check_domain_present_kept)
  then have "map_of (fold (check_domain r) eds (check_domain r ed dc)) key \<noteq> None"
    by (rule Cons.IH)
  then show ?case by simp
qed

lemma fold_check_domain_absent_tag:
  assumes "\<forall>a \<in> set (r_domains r). d_domain a \<noteq> domain_str d"
  shows "map_of (fold (check_domain r) eds dc) (domain_str d @ ''_severity'')
           = map_of dc (domain_str d @ ''_severity'') \<and>
         map_of (fold (check_domain r) eds dc) (domain_str d @ ''_confidence'')
           = map_of dc (domain_str d @ ''_confidence'')"
proof (induction eds arbitrary: dc)
  case Nil
  then show ?case by simp
next
  case (Cons ed eds)
  have "map_of (check_domain r ed dc) (domain_str d @ ''_severity'')
          = map_of dc (domain_str d @ ''_severity'') \<and>
        map_of (check_domain r ed dc) (domain_str d @ ''_confidence'')
          = map_of dc (domain_str d @ ''_confidence'')"
  proof (cases "domain ed = d")
    case True
    with assms have "find (\<lambda>a. d_domain a = domain_str (domain ed)) (r_domains r) = None"
      by (simp add: find_None_iff)
    then show ?thesis by (simp add: check_domain_absent)
  next
    case False
    then show ?thesis by (rule check_domain_other_tag)
  qed
  with Cons.IH[of "check_domain r ed dc"] show ?case by simp
qed

lemma domain_checks_split:
  assumes "expected_domains tc = Some eds" "i < length eds"
  shows "domain_checks tc r
           = fold (check_domain r) (drop (Suc i) eds)
               (check_domain r (eds ! i) (fold (check_domain r) (take i eds) []))"
proof -
  have "eds = take i eds @ eds ! i # drop (Suc i) eds"
    using assms(2) by (rule id_take_nth_drop)
  then have "fold (check_domain r) eds []
      = fold (check_domain r) (take i eds @ eds ! i # drop (Suc i) eds) []" by simp
  then show ?thesis using assms(1) by (simp add: domain_checks_def)
qed

lemma domain_checks_without:
  assumes "expected_domains tc = Some eds"
  shows "domain_checks (without_domain i tc) r
           = fold (check_domain r) (drop (Suc i) eds) (fold (check_domain r) (take i eds) [])"
  using assms by (simp add: domain_checks_def without_domain_def)

lemma base_checks_without: "base_checks (without_domain i tc) r = base_checks tc r"
  by (simp add: base_checks_def without_domain_def acceptableSeverities_def
      acceptableImminence_def split: option.split)

lemma legal_flag_checks_without:
  "legal_flag_checks (without_domain i tc) r = legal_flag_checks tc r"
  by (simp add: legal_flag_checks_def without_domain_def Let_def split: option.split)

section \<open>The claims\<close>

text \<open>
  Claim C1. Every declared legal flag yields a named check that compares the expected
  value by strict equality with the nested field of the payload: \<^verbatim>\<open>.present\<close> for
  the boolean flags, \<^verbatim>\<open>.level\<close> for the ratings. The code does so for
  \<^verbatim>\<open>duty_to_warn\<close>, \<^verbatim>\<open>mash_rating\<close> and \<^verbatim>\<open>dash_rating\<close> (lemma
  \<open>legal_flag_checks_handled\<close>) and has no branch for \<^verbatim>\<open>child_safeguarding_urgent\<close>,
  \<^verbatim>\<open>vulnerable_adult_safeguarding\<close> and \<^verbatim>\<open>animal_cruelty\<close>: a case that declares
  these three, run against a payload without any legal flag, reports no legal flag check
  at all and passes with score 100.
\<close>

theorem safeguarding_flags_unchecked:
  "legal_flag_checks safeguarding_case (scenario_result (8 / 10)) = [] \<and>
   c_legal_flags (checks (task safeguarding_case (responds (scenario_result (8 / 10))))) = None \<and>
   reported_checks (task safeguarding_case (responds (scenario_result (8 / 10))))
     = [True, True, True] \<and>
   passed (task safeguarding_case (responds (scenario_result (8 / 10)))) \<and>
   score (task safeguarding_case (responds (scenario_result (8 / 10)))) = 100"
  by (simp add: task_responds check_eval safeguarding_case_def scenario_case_def
      scenario_result_def)

text \<open>
  Claim C2. For every result of the scoring step (the task of a case, whether its
  classifier call answered or failed): the score is 100 exactly when \<open>passed\<close> is true,
  and a score below 100 implies \<open>passed\<close> is false; \<open>passed\<close> is the conjunction of
  all checks the result reports and the score is 100 times the fraction of the true ones
  (there is always at least one check, so the fraction is defined).
\<close>

theorem score_100_iff_passed:
  "(score (task tc fo) = 100 \<longleftrightarrow> passed (task tc fo)) \<and>
   (score (task tc fo) < 100 \<longrightarrow> \<not> passed (task tc fo)) \<and>
   (passed (task tc fo) \<longleftrightarrow> list_all (\<lambda>v. v) (reported_checks (task tc fo))) \<and>
   score (task tc fo) =
     100 * (real (length (filter (\<lambda>v. v) (reported_checks (task tc fo))))
             / real (length (reported_checks (task tc fo)))) \<and>
   reported_checks (task tc fo) \<noteq> []"
proof -
  let ?cs = "reported_checks (task tc fo)"
  have ne: "?cs \<noteq> []" by (rule reported_checks_nonempty)
  have p: "passed (task tc fo) = list_all (\<lambda>v. v) ?cs" by (rule passed_task)
  have s: "score (task tc fo) = real (length (filter (\<lambda>v. v) ?cs)) / real (length ?cs) * 100"
    by (rule score_task)
  have full: "(score (task tc fo) = 100) = passed (task tc fo)"
    unfolding s p by (rule fraction_full[OF ne])
  have "score (task tc fo) \<noteq> 100" if "score (task tc fo) < 100"
    using that by simp
  with full have below: "score (task tc fo) < 100 \<longrightarrow> \<not> passed (task tc fo)" by blast
  from full below p s ne show ?thesis by simp
qed

text \<open>
  The scenario with confidence 0.4: two of three checks hold, the score is 200/3 and the
  case is not passed.
\<close>

theorem score_100_iff_passed_witness:
  "score (task scenario_case (responds (scenario_result (4 / 10)))) = 200 / 3 \<and>
   \<not> passed (task scenario_case (responds (scenario_result (4 / 10)))) \<and>
   reported_checks (task scenario_case (responds (scenario_result (4 / 10))))
     = [True, True, False]"
  using score_100_iff_passed[of scenario_case "responds (scenario_result (4 / 10))"]
  by (simp add: task_responds check_eval scenario_case_def scenario_result_def)

text \<open>
  Claim C3, as amended. When the classifier call of a case fails (\<^verbatim>\<open>fetch\<close> rejects,
  the response is not ok, the body does not parse, or the payload lacks what the task
  reads), the task takes the catch branch: the result has actual severity \<^verbatim>\<open>none\<close>,
  actual imminence \<^verbatim>\<open>not_applicable\<close>, confidence 0, no domains, \<open>passed\<close> false,
  the three baseline checks false and no other check, score 0, and an error string that
  is the message of the thrown error: non-empty exactly when that message is, and always
  so for the error \<^verbatim>\<open>callNopeAPI\<close> itself throws for a response that is not ok. The
  run is not aborted: whatever the calls do, every execution yields a report with one
  result per case, each the result of that case's own task, and an execution exists.
\<close>

theorem classifier_failure_result:
  "(callNopeAPI fo = Inl e \<or> callNopeAPI fo = Inr (Misshapen e) \<longrightarrow>
      task tc fo = error_result tc e \<and>
      actual (task tc fo) = failed_actual \<and>
      \<not> passed (task tc fo) \<and>
      checks (task tc fo) = failed_checks \<and>
      score (task tc fo) = 0 \<and>
      error (task tc fo) = Some (error_text e) \<and>
      ((\<exists>msg. error (task tc fo) = Some msg \<and> msg \<noteq> []) \<longleftrightarrow> error_text e \<noteq> [])) \<and>
   (\<forall>resp body. \<not> ok resp \<and> text_body resp = Inr body \<longrightarrow>
      callNopeAPI (Responded resp)
        = Inl (Error (''API error ('' @ show_nat (status resp) @ ''): '' @ body)) \<and>
      (\<exists>msg. error (task tc (Responded resp)) = Some msg \<and> msg \<noteq> [])) \<and>
   (\<forall>x. callNopeAPI (Rejected x) = Inl x) \<and>
   (\<forall>resp x. ok resp \<and> json_body resp = Inl x \<longrightarrow> callNopeAPI (Responded resp) = Inl x) \<and>
   (\<forall>suite apiUrl now net order out.
      generateStaticResults suite apiUrl now net order = Some out \<longrightarrow>
      (\<exists>rep. out = Inr rep \<and> length (rep_cases rep) = length (cases suite) \<and>
             (\<forall>j < length (cases suite).
                rep_cases rep ! j = task (cases suite ! j) (net j)))) \<and>
   (\<forall>suite apiUrl now net. \<exists>order.
      generateStaticResults suite apiUrl now net order \<noteq> None)"
proof -
  have fail: "task tc fo = error_result tc e \<and>
      actual (task tc fo) = failed_actual \<and>
      \<not> passed (task tc fo) \<and>
      checks (task tc fo) = failed_checks \<and>
      score (task tc fo) = 0 \<and>
      error (task tc fo) = Some (error_text e) \<and>
      ((\<exists>msg. error (task tc fo) = Some msg \<and> msg \<noteq> []) \<longleftrightarrow> error_text e \<noteq> [])"
    if "callNopeAPI fo = Inl e \<or> callNopeAPI fo = Inr (Misshapen e)"
    unfolding task_failed[OF that]
    by (simp add: error_result_def failed_actual_def failed_checks_def)
  have api: "callNopeAPI (Responded resp)
        = Inl (Error (''API error ('' @ show_nat (status resp) @ ''): '' @ body)) \<and>
      (\<exists>msg. error (task tc (Responded resp)) = Some msg \<and> msg \<noteq> [])"
    if "\<not> ok resp" "text_body resp = Inr body" for resp body
  proof -
    note c = callNopeAPI_not_ok[OF that]
    have "task tc (Responded resp)
            = error_result tc (Error (''API error ('' @ show_nat (status resp) @ ''): '' @ body))"
      by (rule task_failed) (simp add: c)
    then show ?thesis by (simp add: c error_result_def)
  qed
  have rej: "callNopeAPI (Rejected x) = Inl x" for x by (simp add: callNopeAPI_def)
  have js: "callNopeAPI (Responded resp) = Inl x" if "ok resp" "json_body resp = Inl x" for resp x
    using that by (simp add: callNopeAPI_def)
  have rep: "\<exists>rep. out = Inr rep \<and> length (rep_cases rep) = length (cases suite) \<and>
             (\<forall>j < length (cases suite). rep_cases rep ! j = task (cases suite ! j) (net j))"
    if "generateStaticResults suite apiUrl now net order = Some out"
    for suite apiUrl now net order out
    using generateStaticResults_report[OF that] by (simp add: suite_results_def)
  have ex: "\<exists>order. generateStaticResults suite apiUrl now net order \<noteq> None"
    for suite apiUrl now net
    using generateStaticResults_completes[of suite apiUrl now net] by blast
  from fail api rej js rep ex show ?thesis by blast
qed

text \<open>
  A 503 answer with body \<^verbatim>\<open>unavailable\<close>; in the example suite the second case fails
  so and its siblings keep their results.
\<close>

theorem classifier_failure_result_witness:
  "callNopeAPI unavailable = Inl (Error ''API error (503): unavailable'') \<and>
   actual (task scenario_case unavailable) = failed_actual \<and>
   \<not> passed (task scenario_case unavailable) \<and>
   checks (task scenario_case unavailable) = failed_checks \<and>
   score (task scenario_case unavailable) = 0 \<and>
   error (task scenario_case unavailable) = Some ''API error (503): unavailable'' \<and>
   map error (suite_results demo_suite demo_net)
     = [None, Some ''API error (503): unavailable'', None] \<and>
   map score (suite_results demo_suite demo_net) = [100, 0, 50]"
proof -
  have c: "callNopeAPI unavailable = Inl (Error ''API error (503): unavailable'')"
    by (simp add: callNopeAPI_def unavailable_def show_nat.simps digit_def)
  from classifier_failure_result[of unavailable "Error ''API error (503): unavailable''"
      scenario_case] c
  show ?thesis by (simp add: demo_results error_result_def failed_actual_def failed_checks_def)
qed

text \<open>
  The claim as first stated asks for a non-empty error string after any error. A
  \<^verbatim>\<open>fetch\<close> that rejects with an \<^verbatim>\<open>Error\<close> whose message is empty is a failed
  call, and the result carries the empty string.
\<close>

theorem classifier_failure_empty_message_counterexample:
  "callNopeAPI (Rejected (Error [])) = Inl (Error []) \<and>
   task scenario_case (Rejected (Error [])) = error_result scenario_case (Error []) \<and>
   error (task scenario_case (Rejected (Error []))) = Some []"
  by (simp add: task_def callNopeAPI_def error_result_def)

text \<open>
  Claim C4. For every list of tasks run with a concurrency of at least one, and every
  completion order that is an execution of the runner: the returned array has one entry
  per task, and entry \<open>i\<close> is what task \<open>i\<close> settled to (its value, or
  \<^verbatim>\<open>undefined\<close> when it rejected). Every partial execution extends to a complete one,
  which has exactly one settlement per task, so the runner returns. Consequently the
  report of a suite lists the result of case \<open>i\<close> at position \<open>i\<close>, whatever the
  completion order.
\<close>

theorem index_fidelity:
  assumes "1 \<le> C"
  shows "(\<forall>order out. runWithConcurrency tasks C order = Some out \<longrightarrow>
            (\<exists>rs. out = Inr rs \<and> length rs = length tasks \<and>
                  (\<forall>i < length tasks. rs ! i = stored (tasks ! i)))) \<and>
         (\<forall>order s. run tasks order (init tasks (nat C)) = Some s \<longrightarrow>
            (\<exists>rest. runWithConcurrency tasks C (order @ rest) \<noteq> None \<and>
                    length (order @ rest) = length tasks)) \<and>
         (\<forall>suite apiUrl now net order out.
            generateStaticResults suite apiUrl now net order = Some out \<longrightarrow>
            (\<exists>rep. out = Inr rep \<and> length (rep_cases rep) = length (cases suite) \<and>
                   (\<forall>i < length (cases suite).
                      rep_cases rep ! i = task (cases suite ! i) (net i)))) \<and>
         (\<forall>suite apiUrl now net. \<exists>order.
            generateStaticResults suite apiUrl now net order \<noteq> None)"
proof (intro conjI allI impI)
  fix order out
  assume "runWithConcurrency tasks C order = Some out"
  with assms have "out = Inr (map stored tasks)" by (rule runWithConcurrency_result)
  then show "\<exists>rs. out = Inr rs \<and> length rs = length tasks \<and>
                  (\<forall>i < length tasks. rs ! i = stored (tasks ! i))" by simp
next
  fix order s
  assume "run tasks order (init tasks (nat C)) = Some s"
  with assms obtain rest
    where "runWithConcurrency tasks C (order @ rest) = Some (Inr (map stored tasks))"
      "length (order @ rest) = length tasks"
    using runWithConcurrency_completes by blast
  then have "runWithConcurrency tasks C (order @ rest) \<noteq> None \<and>
      length (order @ rest) = length tasks" by simp
  then show "\<exists>rest. runWithConcurrency tasks C (order @ rest) \<noteq> None \<and>
      length (order @ rest) = length tasks" by blast
next
  fix suite apiUrl now net order out
  assume "generateStaticResults suite apiUrl now net order = Some out"
  from generateStaticResults_report[OF this]
  show "\<exists>rep. out = Inr rep \<and> length (rep_cases rep) = length (cases suite) \<and>
          (\<forall>i < length (cases suite). rep_cases rep ! i = task (cases suite ! i) (net i))"
    by (simp add: suite_results_def)
next
  fix suite apiUrl now net
  from generateStaticResults_completes[of suite apiUrl now net]
  show "\<exists>order. generateStaticResults suite apiUrl now net order \<noteq> None" by blast
qed

text \<open>
  Three tasks, two workers: the orders in which the second task settles first or last
  return the same array; an order that names a worker that has returned is no execution.
\<close>

theorem index_fidelity_witness:
  "runWithConcurrency [Resolves (1::nat), Rejects, Resolves 3] 2 [1, 1, 0]
     = Some (Inr [Val 1, Undefined, Val 3]) \<and>
   runWithConcurrency [Resolves (1::nat), Rejects, Resolves 3] 2 [0, 1, 0]
     = Some (Inr [Val 1, Undefined, Val 3]) \<and>
   runWithConcurrency [Resolves (1::nat), Rejects, Resolves 3] 2 [1, 0, 0] = None \<and>
   map_option (map_sum id (map score \<circ> rep_cases))
     (generateStaticResults demo_suite ''http://localhost:8788'' ''2025-01-01T00:00:00.000Z''
        demo_net [0, 1, 2])
     = Some (Inr [100, 0, 50])"
proof -
  have C: "1 \<le> (2::int)" by simp
  have a: "runWithConcurrency [Resolves (1::nat), Rejects, Resolves 3] 2 [1, 1, 0]
     = Some (Inr [Val 1, Undefined, Val 3])"
    by (simp add: runner_eval)
  have b: "runWithConcurrency [Resolves (1::nat), Rejects, Resolves 3] 2 [0, 1, 0]
     = Some (Inr [Val 1, Undefined, Val 3])"
    by (simp add: runner_eval)
  have c: "runWithConcurrency [Resolves (1::nat), Rejects, Resolves 3] 2 [1, 0, 0] = None"
    by (simp add: runner_eval)
  have "generateStaticResults demo_suite ''http://localhost:8788''
      ''2025-01-01T00:00:00.000Z'' demo_net [0, 1, 2] \<noteq> None"
    unfolding generateStaticResults_def demo_run_in_order by (simp add: tally_vals)
  then obtain out where out: "generateStaticResults demo_suite ''http://localhost:8788''
      ''2025-01-01T00:00:00.000Z'' demo_net [0, 1, 2] = Some out" by blast
  with index_fidelity[OF C, of "[Resolves (1::nat), Rejects, Resolves 3]"]
  obtain rep where rep: "out = Inr rep" "length (rep_cases rep) = length (cases demo_suite)"
    "\<forall>i < length (cases demo_suite). rep_cases rep ! i = task (cases demo_suite ! i) (demo_net i)"
    by blast
  have "rep_cases rep = suite_results demo_suite demo_net"
    using rep(2,3) by (intro nth_equalityI) (simp_all add: suite_results_def)
  then have "map score (rep_cases rep) = [100, 0, 50]" by (simp add: demo_results)
  with a b c out rep(1) show ?thesis by simp
qed

text \<open>
  Claim C5. For every suite and every execution that yields a report, the overall score
  is the arithmetic mean of the scores of the report's cases (for a suite without cases
  the division is \<^verbatim>\<open>0 / 0\<close>, \<^verbatim>\<open>NaN\<close>); the pass and fail counts are counted
  from the pass flags, and the overall score is a function of the scores alone: result
  lists with the same scores have the same overall score, whatever their pass flags.
\<close>

theorem aggregate_score_mean:
  "(\<forall>order rep. generateStaticResults suite apiUrl now net order = Some (Inr rep) \<longrightarrow>
      rep_cases rep = suite_results suite net \<and>
      overall_score rep =
        (if cases suite = [] then NaN
         else Num (sum_list (map score (rep_cases rep)) / real (length (rep_cases rep)))) \<and>
      passed_cases rep = length (filter passed (rep_cases rep)) \<and>
      failed_cases rep = length (filter (\<lambda>r. \<not> passed r) (rep_cases rep))) \<and>
   (\<forall>rs rs'. map score rs = map score rs' \<longrightarrow> overallScore rs = overallScore rs')"
proof (intro conjI allI impI)
  fix rs rs' :: "TestCaseResult list"
  assume eq: "map score rs = map score rs'"
  then have "length rs = length rs'" by (rule map_eq_imp_length_eq)
  with eq show "overallScore rs = overallScore rs'"
    by (auto simp: overallScore_mean)
next
  fix order rep
  assume "generateStaticResults suite apiUrl now net order = Some (Inr rep)"
  from generateStaticResults_report[OF this]
  have rep: "rep = \<lparr>suite_id = test_set_id suite, suite_version = version suite,
                    suite_description = ts_description suite, generated_at = now,
                    api_endpoint = apiUrl, total_cases = length (cases suite),
                    passed_cases = length (filter passed (suite_results suite net)),
                    failed_cases = length (filter (\<lambda>r. \<not> passed r) (suite_results suite net)),
                    overall_score = overallScore (suite_results suite net),
                    rep_cases = suite_results suite net\<rparr>" by simp
  show "rep_cases rep = suite_results suite net" by (simp add: rep)
  show "passed_cases rep = length (filter passed (rep_cases rep))" by (simp add: rep)
  show "failed_cases rep = length (filter (\<lambda>r. \<not> passed r) (rep_cases rep))" by (simp add: rep)
  have "suite_results suite net = [] \<longleftrightarrow> cases suite = []" by (simp add: suite_results_def)
  then show "overall_score rep =
        (if cases suite = [] then NaN
         else Num (sum_list (map score (rep_cases rep)) / real (length (rep_cases rep))))"
    by (simp add: rep overallScore_mean)
qed

text \<open>
  The example suite has the scores 100, 0 and 50: its overall score is exactly 50, with
  one case of three passed.
\<close>

theorem aggregate_score_mean_witness:
  "map_option (map_sum id report_summary)
     (generateStaticResults demo_suite ''http://localhost:8788'' ''2025-01-01T00:00:00.000Z''
        demo_net [2, 0, 1])
     = Some (Inr ([100, 0, 50], Num 50, 1, 2, 3))"
proof -
  let ?rs = "suite_results demo_suite demo_net"
  obtain rep where rep: "generateStaticResults demo_suite ''http://localhost:8788''
      ''2025-01-01T00:00:00.000Z'' demo_net [2, 0, 1] = Some (Inr rep)"
    using demo_report by blast
  from aggregate_score_mean[of demo_suite "''http://localhost:8788''"
      "''2025-01-01T00:00:00.000Z''" demo_net] rep
  have a: "rep_cases rep = ?rs"
    "overall_score rep =
        (if cases demo_suite = [] then NaN
         else Num (sum_list (map score (rep_cases rep)) / real (length (rep_cases rep))))"
    "passed_cases rep = length (filter passed (rep_cases rep))"
    "failed_cases rep = length (filter (\<lambda>r. \<not> passed r) (rep_cases rep))"
    by blast+
  have t: "total_cases rep = 3"
    using generateStaticResults_report[OF rep] by (simp add: demo_suite_def)
  have ne: "cases demo_suite \<noteq> []" by (simp add: demo_suite_def)
  have "report_summary rep = ([100, 0, 50], Num 50, 1, 2, 3)"
    unfolding report_summary_def a(2,3,4) a(1) using ne t
    by (simp add: demo_results demo_counts)
  with rep show ?thesis by simp
qed

text \<open>
  Claim C6. For every case and payload, the overall severity check of the result holds
  exactly when the actual overall severity is (the string of) a member of the case's
  acceptable-severity set, which is the singleton of the baseline severity when the case
  supplies no widened list; the overall imminence check follows the same rule over the
  acceptable-imminence set.
\<close>

theorem overall_checks_membership:
  "(c_overall_severity (checks (check_expectations tc r)) \<longleftrightarrow>
      a_overall_severity (actual (check_expectations tc r))
        \<in> severity_str ` acceptable_severity_set tc) \<and>
   (c_overall_imminence (checks (check_expectations tc r)) \<longleftrightarrow>
      a_overall_imminence (actual (check_expectations tc r))
        \<in> imminence_str ` acceptable_imminence_set tc) \<and>
   (\<forall>s. g_overall_severity (r_global r) = severity_str s \<longrightarrow>
      (c_overall_severity (checks (check_expectations tc r)) \<longleftrightarrow>
         s \<in> acceptable_severity_set tc)) \<and>
   (\<forall>i. g_overall_imminence (r_global r) = imminence_str i \<longrightarrow>
      (c_overall_imminence (checks (check_expectations tc r)) \<longleftrightarrow>
         i \<in> acceptable_imminence_set tc)) \<and>
   (acceptable_severities tc = None \<longrightarrow>
      acceptable_severity_set tc = {expected_overall_severity tc}) \<and>
   (acceptable_imminence tc = None \<longrightarrow>
      acceptable_imminence_set tc = {expected_overall_imminence tc})"
proof -
  have sev: "c_overall_severity (checks (check_expectations tc r)) \<longleftrightarrow>
      g_overall_severity (r_global r) \<in> severity_str ` acceptable_severity_set tc"
    by (simp add: checks_success acceptableSeverities_set)
  have imm: "c_overall_imminence (checks (check_expectations tc r)) \<longleftrightarrow>
      g_overall_imminence (r_global r) \<in> imminence_str ` acceptable_imminence_set tc"
    by (simp add: checks_success acceptableImminence_set)
  have sev_typed: "c_overall_severity (checks (check_expectations tc r)) \<longleftrightarrow>
      s \<in> acceptable_severity_set tc" if "g_overall_severity (r_global r) = severity_str s" for s
    unfolding sev that by (auto simp: severity_str_inj)
  have imm_typed: "c_overall_imminence (checks (check_expectations tc r)) \<longleftrightarrow>
      i \<in> acceptable_imminence_set tc" if "g_overall_imminence (r_global r) = imminence_str i" for i
    unfolding imm that by (auto simp: imminence_str_inj)
  show ?thesis
    using sev imm sev_typed imm_typed
    by (simp add: actual_success acceptable_severity_set_def acceptable_imminence_set_def)
qed

text \<open>
  Baseline \<^verbatim>\<open>moderate\<close> with acceptable set \<^verbatim>\<open>{moderate, high}\<close>: actual
  \<^verbatim>\<open>high\<close> passes, actual \<^verbatim>\<open>critical\<close> fails; likewise for imminence.
\<close>

theorem overall_checks_membership_witness:
  "c_overall_severity (checks (check_expectations widened_case (overall_result ''high'' ''urgent''))) \<and>
   \<not> c_overall_severity (checks (check_expectations widened_case (overall_result ''critical'' ''urgent''))) \<and>
   c_overall_imminence (checks (check_expectations widened_case (overall_result ''high'' ''urgent''))) \<and>
   \<not> c_overall_imminence (checks (check_expectations widened_case (overall_result ''high'' ''emergency''))) \<and>
   acceptable_severity_set widened_case = {S_moderate, S_high} \<and>
   acceptable_severity_set scenario_case = {S_high}"
  using overall_checks_membership[of widened_case "overall_result ''high'' ''urgent''"]
    overall_checks_membership[of widened_case "overall_result ''critical'' ''urgent''"]
    overall_checks_membership[of widened_case "overall_result ''high'' ''emergency''"]
    overall_checks_membership[of scenario_case "overall_result ''high'' ''emergency''"]
  by (simp add: widened_case_def overall_result_def scenario_case_def actual_success
      acceptable_severity_set_def acceptable_imminence_set_def)

text \<open>
  Claim C7, as amended. For every expected domain of a case (the \<open>i\<close>-th entry of
  \<^verbatim>\<open>expected_domains\<close>) and every payload: when no actual domain has its tag, the
  entry contributes no check: the result reports no check under
  \<^verbatim>\<open><domain>_severity\<close> or \<^verbatim>\<open><domain>_confidence\<close>, and its checks, pass flag and
  score are those of the case without the entry. When \<^verbatim>\<open>find\<close> yields an actual
  domain and the entry declares a minimum severity, the result reports a check
  \<^verbatim>\<open><domain>_severity\<close>; provided no later entry of the same tag declares a minimum
  severity (in particular when the tags of the expected domains are distinct), that
  check holds exactly when the index of the actual severity in \<^verbatim>\<open>severityLevels\<close> is
  at least the index of the declared minimum. The scale is none = 0, mild = 1,
  moderate = 2, high = 3, critical = 4.
\<close>

theorem domain_severity_reported:
  assumes eds: "expected_domains tc = Some eds" and i: "i < length eds"
  shows
    "((\<forall>a \<in> set (r_domains r). d_domain a \<noteq> domain_str (domain (eds ! i))) \<longrightarrow>
        reported_domain_check (check_expectations tc r)
          (domain_str (domain (eds ! i)) @ ''_severity'') = None \<and>
        reported_domain_check (check_expectations tc r)
          (domain_str (domain (eds ! i)) @ ''_confidence'') = None \<and>
        checks (check_expectations tc r) = checks (check_expectations (without_domain i tc) r) \<and>
        passed (check_expectations tc r) = passed (check_expectations (without_domain i tc) r) \<and>
        score (check_expectations tc r) = score (check_expectations (without_domain i tc) r)) \<and>
     (\<forall>ad m. find (\<lambda>a. d_domain a = domain_str (domain (eds ! i))) (r_domains r) = Some ad \<and>
             min_severity (eds ! i) = Some m \<longrightarrow>
        reported_domain_check (check_expectations tc r)
          (domain_str (domain (eds ! i)) @ ''_severity'') \<noteq> None \<and>
        ((\<forall>j. i < j \<and> j < length eds \<and> domain (eds ! j) = domain (eds ! i) \<longrightarrow>
               min_severity (eds ! j) = None) \<longrightarrow>
         reported_domain_check (check_expectations tc r)
           (domain_str (domain (eds ! i)) @ ''_severity'') =
             Some (indexOf severityLevels (d_severity ad)
                     \<ge> indexOf severityLevels (severity_str m)))) \<and>
     map (indexOf severityLevels \<circ> severity_str) [S_none, S_mild, S_moderate, S_high, S_critical]
       = [0, 1, 2, 3, 4]"
proof -
  let ?ed = "eds ! i" and ?res = "check_expectations tc r"
  let ?sev = "domain_str (domain (eds ! i)) @ ''_severity''"
  let ?conf = "domain_str (domain (eds ! i)) @ ''_confidence''"
  let ?pre = "fold (check_domain r) (take i eds) []"
  note split = domain_checks_split[OF eds i, of r]
  have absent: "reported_domain_check ?res ?sev = None \<and>
        reported_domain_check ?res ?conf = None \<and>
        checks ?res = checks (check_expectations (without_domain i tc) r) \<and>
        passed ?res = passed (check_expectations (without_domain i tc) r) \<and>
        score ?res = score (check_expectations (without_domain i tc) r)"
    if no: "\<forall>a \<in> set (r_domains r). d_domain a \<noteq> domain_str (domain ?ed)"
  proof -
    from fold_check_domain_absent_tag[OF no, of eds "[]"] eds
    have none: "map_of (domain_checks tc r) ?sev = None" "map_of (domain_checks tc r) ?conf = None"
      by (simp_all add: domain_checks_def)
    from no have "find (\<lambda>a. d_domain a = domain_str (domain ?ed)) (r_domains r) = None"
      by (simp add: find_None_iff)
    then have "check_domain r ?ed ?pre = ?pre" by (rule check_domain_absent)
    then have same: "domain_checks tc r = domain_checks (without_domain i tc) r"
      by (simp add: split domain_checks_without[OF eds])
    have "base_checks tc r = base_checks (without_domain i tc) r"
      "legal_flag_checks tc r = legal_flag_checks (without_domain i tc) r"
      by (simp_all add: base_checks_without legal_flag_checks_without)
    from verdict_success[OF this(1) same this(2)] none show ?thesis
      by (simp add: reported_domain_check_success)
  qed
  have present: "reported_domain_check ?res ?sev \<noteq> None \<and>
        ((\<forall>j. i < j \<and> j < length eds \<and> domain (eds ! j) = domain ?ed \<longrightarrow>
               min_severity (eds ! j) = None) \<longrightarrow>
         reported_domain_check ?res ?sev =
             Some (indexOf severityLevels (d_severity ad)
                     \<ge> indexOf severityLevels (severity_str m)))"
    if f: "find (\<lambda>a. d_domain a = domain_str (domain ?ed)) (r_domains r) = Some ad"
      and m: "min_severity ?ed = Some m" for ad m
  proof -
    note step = check_domain_severity[OF f m, of ?pre]
    then have "map_of (check_domain r ?ed ?pre) ?sev \<noteq> None" by simp
    then have 1: "reported_domain_check ?res ?sev \<noteq> None"
      unfolding reported_domain_check_success split by (rule fold_check_domain_present_kept)
    have 2: "reported_domain_check ?res ?sev =
             Some (indexOf severityLevels (d_severity ad)
                     \<ge> indexOf severityLevels (severity_str m))"
      if last: "\<forall>j. i < j \<and> j < length eds \<and> domain (eds ! j) = domain ?ed \<longrightarrow>
               min_severity (eds ! j) = None"
    proof -
      have "\<forall>ed \<in> set (drop (Suc i) eds). domain ed = domain ?ed \<longrightarrow> min_severity ed = None"
      proof (intro ballI impI)
        fix ed assume "ed \<in> set (drop (Suc i) eds)" and d: "domain ed = domain ?ed"
        then obtain k where k: "k < length (drop (Suc i) eds)" "drop (Suc i) eds ! k = ed"
          by (auto simp: in_set_conv_nth)
        then have "eds ! (Suc i + k) = ed" "Suc i + k < length eds" by simp_all
        with last d show "min_severity ed = None" by (metis less_add_Suc1 add_Suc)
      qed
      from fold_check_domain_kept[OF this, of r] step show ?thesis
        by (simp add: reported_domain_check_success split)
    qed
    from 1 2 show ?thesis by blast
  qed
  have idx: "map (indexOf severityLevels \<circ> severity_str)
      [S_none, S_mild, S_moderate, S_high, S_critical] = [0, 1, 2, 3, 4]"
    by (simp add: indexOf_def severityLevels_def)
  from absent present idx show ?thesis by blast
qed

text \<open>
  With minimum \<^verbatim>\<open>high\<close>: actual \<^verbatim>\<open>critical\<close> and \<^verbatim>\<open>high\<close> pass,
  \<^verbatim>\<open>moderate\<close> fails, and a payload without the domain yields no domain check. With
  the two entries of the same tag, the last one (minimum \<^verbatim>\<open>mild\<close>) decides.
\<close>

theorem domain_severity_reported_witness:
  "reported_domain_check
     (check_expectations (self_case (Some S_high) None None)
        (domain_result [self_domain ''critical''])) ''self_severity'' = Some True \<and>
   reported_domain_check
     (check_expectations (self_case (Some S_high) None None)
        (domain_result [self_domain ''high''])) ''self_severity'' = Some True \<and>
   reported_domain_check
     (check_expectations (self_case (Some S_high) None None)
        (domain_result [self_domain ''moderate''])) ''self_severity'' = Some False \<and>
   reported_domain_check
     (check_expectations (self_case (Some S_high) None None)
        (domain_result [])) ''self_severity'' = None \<and>
   c_domains (checks (check_expectations (self_case (Some S_high) None None)
        (domain_result []))) = None \<and>
   reported_domain_check
     (check_expectations duplicate_case
        (domain_result [self_domain ''moderate''])) ''self_severity'' = Some True"
proof -
  let ?high = "\<lparr>domain = D_self, min_severity = Some S_high, min_imminence = None,
                 min_confidence = None\<rparr>"
  let ?mild = "\<lparr>domain = D_self, min_severity = Some S_mild, min_imminence = None,
                 min_confidence = None\<rparr>"
  have one: "expected_domains (self_case (Some S_high) None None) = Some [?high]"
    by (simp add: self_case_def)
  have two: "expected_domains duplicate_case = Some [?high, ?mild]"
    by (simp add: duplicate_case_def scenario_case_def)
  have i0: "0 < length [?high]" and i1: "1 < length [?high, ?mild]" by simp_all
  have f: "find (\<lambda>a. d_domain a = ''self'') (r_domains (domain_result [self_domain sev]))
             = Some (self_domain sev)" for sev
    by (simp add: domain_result_def self_domain_def)
  have no_later: "\<forall>j. 0 < j \<and> j < length [?high] \<and>
        domain ([?high] ! j) = domain ([?high] ! 0) \<longrightarrow> min_severity ([?high] ! j) = None"
    by auto
  have found: "find (\<lambda>a. d_domain a = domain_str (domain ([?high] ! 0)))
        (r_domains (domain_result [self_domain ''moderate''])) = Some (self_domain ''moderate'') \<and>
      min_severity ([?high] ! 0) = Some S_high"
    by (simp add: f)
  note single = domain_severity_reported[OF one i0,
      of "domain_result [self_domain ''moderate'']", THEN conjunct2, THEN conjunct1,
      rule_format, OF found, THEN conjunct2, THEN mp, OF no_later]
  have moderate: "reported_domain_check
     (check_expectations (self_case (Some S_high) None None)
        (domain_result [self_domain ''moderate''])) ''self_severity''
       = Some (indexOf severityLevels ''moderate'' \<ge> indexOf severityLevels ''high'')"
    using single by (simp add: self_domain_def)
  have no_later': "\<forall>j. 1 < j \<and> j < length [?high, ?mild] \<and>
        domain ([?high, ?mild] ! j) = domain ([?high, ?mild] ! 1) \<longrightarrow>
        min_severity ([?high, ?mild] ! j) = None"
    by auto
  have found': "find (\<lambda>a. d_domain a = domain_str (domain ([?high, ?mild] ! 1)))
        (r_domains (domain_result [self_domain ''moderate''])) = Some (self_domain ''moderate'') \<and>
      min_severity ([?high, ?mild] ! 1) = Some S_mild"
    by (simp add: f)
  note last = domain_severity_reported[OF two i1,
      of "domain_result [self_domain ''moderate'']", THEN conjunct2, THEN conjunct1,
      rule_format, OF found', THEN conjunct2, THEN mp, OF no_later']
  have dup: "reported_domain_check
     (check_expectations duplicate_case
        (domain_result [self_domain ''moderate''])) ''self_severity''
       = Some (indexOf severityLevels ''moderate'' \<ge> indexOf severityLevels ''mild'')"
    using last by (simp add: self_domain_def)
  note none = domain_severity_reported[OF one i0, of "domain_result []",
      THEN conjunct1, rule_format]
  have absent: "reported_domain_check
     (check_expectations (self_case (Some S_high) None None)
        (domain_result [])) ''self_severity'' = None"
    using none by (simp add: domain_result_def)
  have rest: "reported_domain_check
     (check_expectations (self_case (Some S_high) None None)
        (domain_result [self_domain ''critical''])) ''self_severity'' = Some True \<and>
   reported_domain_check
     (check_expectations (self_case (Some S_high) None None)
        (domain_result [self_domain ''high''])) ''self_severity'' = Some True \<and>
   c_domains (checks (check_expectations (self_case (Some S_high) None None)
        (domain_result []))) = None"
    by (simp add: reported_domain_check_def check_eval self_case_def domain_result_def
        self_domain_def)
  from moderate dup absent rest show ?thesis
    by (simp add: severityLevels_def indexOf_def)
qed

text \<open>
  The claim as first stated fails for an entry that a later entry of the same tag
  overwrites: the first expected domain demands \<^verbatim>\<open>high\<close>, the actual domain is
  \<^verbatim>\<open>moderate\<close> (index 2 below index 3), and yet the reported check
  \<^verbatim>\<open>self_severity\<close> is true and the case passes with score 100.
\<close>

theorem domain_severity_duplicate_tag_counterexample:
  "expected_domains duplicate_case =
     Some [\<lparr>domain = D_self, min_severity = Some S_high, min_imminence = None,
            min_confidence = None\<rparr>,
           \<lparr>domain = D_self, min_severity = Some S_mild, min_imminence = None,
            min_confidence = None\<rparr>] \<and>
   find (\<lambda>a. d_domain a = domain_str D_self) (r_domains (domain_result [self_domain ''moderate'']))
     = Some (self_domain ''moderate'') \<and>
   indexOf severityLevels (d_severity (self_domain ''moderate''))
     < indexOf severityLevels (severity_str S_high) \<and>
   c_domains (checks (task duplicate_case (responds (domain_result [self_domain ''moderate'']))))
     = Some [(''self_severity'', True)] \<and>
   passed (task duplicate_case (responds (domain_result [self_domain ''moderate'']))) \<and>
   score (task duplicate_case (responds (domain_result [self_domain ''moderate'']))) = 100"
  by (simp add: task_responds check_eval duplicate_case_def scenario_case_def domain_result_def
      self_domain_def)

text \<open>
  Claim C8. In every state an execution of the runner reaches, at most \<open>c\<close> tasks are
  in flight and no task is in flight twice; the pool has exactly \<open>min c n\<close> workers,
  started on the indices \<open>0, ..., min c n - 1\<close>; a worker awaits one task at a time,
  and when that task settles it claims the cursor, the least index never claimed, or
  returns when the cursor is past the end; when all workers have returned every index
  has been claimed. A suite is run with \<open>c = 10\<close>. (The bound holds for every number
  of tasks, in particular for \<open>n \<ge> c\<close>.)
\<close>

theorem concurrency_ceiling:
  assumes "run tasks order (init tasks c) = Some s"
  shows "length (in_flight s) \<le> c \<and> distinct (in_flight s) \<and>
         length (workers s) = min c (length tasks) \<and>
         workers (init tasks c) = map Awaiting [0..<min c (length tasks)] \<and>
         index (init tasks c) = min c (length tasks) \<and>
         (\<forall>i \<in> set (in_flight s). i < index s) \<and>
         index s \<le> length tasks \<and> length (results s) \<le> index s \<and>
         (\<forall>k i. k < length (workers s) \<and> workers s ! k = Awaiting i \<longrightarrow>
            workers (resume tasks k s) =
              (workers s)[k := (if index s < length tasks then Awaiting (index s) else Finished)] \<and>
            index (resume tasks k s) =
              (if index s < length tasks then Suc (index s) else index s)) \<and>
         (all_done s \<and> 0 < c \<longrightarrow> index s = length tasks) \<and>
         (\<forall>suite apiUrl now net pre post.
            generateStaticResults suite apiUrl now net (pre @ post) \<noteq> None \<longrightarrow>
            (\<exists>s'. run (suite_tasks suite net) pre (init (suite_tasks suite net) 10) = Some s' \<and>
                  length (in_flight s') \<le> 10))"
proof -
  have inv: "runner_inv tasks s" using runner_inv_init assms by (rule runner_inv_run)
  have 1: "length (in_flight s) \<le> c" using assms by (rule in_flight_bound)
  have 2: "distinct (in_flight s)" using inv by (rule distinct_in_flight)
  have 3: "length (workers s) = min c (length tasks)"
    using workers_run[OF assms] by (simp add: init_eq)
  have 4: "workers (init tasks c) = map Awaiting [0..<min c (length tasks)]"
    "index (init tasks c) = min c (length tasks)"
    by (simp_all add: init_eq)
  have 5: "\<forall>i \<in> set (in_flight s). i < index s"
    using inv by (auto simp: set_in_flight runner_inv_def)
  have 6: "index s \<le> length tasks" "length (results s) \<le> index s"
    using inv by (simp_all add: runner_inv_def)
  have 7: "workers (resume tasks k s) =
              (workers s)[k := (if index s < length tasks then Awaiting (index s) else Finished)] \<and>
            index (resume tasks k s) =
              (if index s < length tasks then Suc (index s) else index s)"
    if "workers s ! k = Awaiting i" for k i
    by (simp add: resume_eq[OF that])
  have 8: "index s = length tasks" if "all_done s" "0 < c"
  proof -
    from that(2) 3 have "workers s \<noteq> [] \<or> tasks = []" by (cases tasks) auto
    with inv that(1) show ?thesis by (rule final_index)
  qed
  have 9: "\<exists>s'. run (suite_tasks suite net) pre (init (suite_tasks suite net) 10) = Some s' \<and>
                  length (in_flight s') \<le> 10"
    if "generateStaticResults suite apiUrl now net (pre @ post) \<noteq> None"
    for suite apiUrl now net pre post
  proof -
    from that have "run (suite_tasks suite net) (pre @ post) (init (suite_tasks suite net) 10) \<noteq> None"
      by (auto simp: generateStaticResults_def runWithConcurrency_def split: option.splits)
    then obtain s' where "run (suite_tasks suite net) pre (init (suite_tasks suite net) 10) = Some s'"
      using run_prefix by blast
    with in_flight_bound[OF this] show ?thesis by blast
  qed
  from 1 2 3 4 5 6 7 8 9 show ?thesis by blast
qed

text \<open>
  Three tasks, two workers, after the second task has settled: tasks 0 and 2 are in
  flight. With ten workers allowed, three are started.
\<close>

theorem concurrency_ceiling_witness:
  "run [Resolves (1::nat), Rejects, Resolves 3] [1] (init [Resolves (1::nat), Rejects, Resolves 3] 2)
     = Some \<lparr>index = 3, results = [Hole, Undefined], workers = [Awaiting 0, Awaiting 2]\<rparr> \<and>
   in_flight \<lparr>index = 3, results = [Hole, Undefined :: nat slot], workers = [Awaiting 0, Awaiting 2]\<rparr>
     = [0, 2] \<and>
   length (in_flight \<lparr>index = 3, results = [Hole, Undefined :: nat slot],
                      workers = [Awaiting 0, Awaiting 2]\<rparr>) \<le> 2 \<and>
   workers (init [Resolves (1::nat), Rejects, Resolves 3] 2) = [Awaiting 0, Awaiting 1] \<and>
   workers (init [Resolves (1::nat), Rejects, Resolves 3] 10) = [Awaiting 0, Awaiting 1, Awaiting 2]"
proof -
  have h: "run [Resolves (1::nat), Rejects, Resolves 3] [1]
             (init [Resolves (1::nat), Rejects, Resolves 3] 2)
     = Some \<lparr>index = 3, results = [Hole, Undefined], workers = [Awaiting 0, Awaiting 2]\<rparr>"
    by (simp add: runner_eval)
  from concurrency_ceiling[OF h]
  have "length (in_flight \<lparr>index = 3, results = [Hole, Undefined :: nat slot],
                      workers = [Awaiting 0, Awaiting 2]\<rparr>) \<le> 2"
    by blast
  with h show ?thesis by (simp add: runner_eval)
qed

text \<open>
  Claim C9. A declared \<^verbatim>\<open>min_imminence\<close> of an expected domain never affects the
  output: two cases that are identical except for those values get identical checks,
  identical pass flags and identical scores for the same outcome of the classifier call;
  every key of the domain checks is a \<^verbatim>\<open>_severity\<close> or a \<^verbatim>\<open>_confidence\<close> key, so
  no imminence check is ever generated for a domain.
\<close>

theorem min_imminence_ignored:
  "(drop_min_imminence tc1 = drop_min_imminence tc2 \<longrightarrow>
      checks (task tc1 fo) = checks (task tc2 fo) \<and>
      passed (task tc1 fo) = passed (task tc2 fo) \<and>
      score (task tc1 fo) = score (task tc2 fo)) \<and>
   set (map fst (domain_checks tc r)) \<subseteq> domain_keys"
proof -
  have "checks (task tc1 fo) = checks (task tc2 fo) \<and>
      passed (task tc1 fo) = passed (task tc2 fo) \<and>
      score (task tc1 fo) = score (task tc2 fo)"
    if "drop_min_imminence tc1 = drop_min_imminence tc2"
    using verdict_drop_min_imminence[of tc1 fo] verdict_drop_min_imminence[of tc2 fo] that
    by simp
  then show ?thesis using domain_checks_keys[of tc r] by blast
qed

text \<open>
  A case demanding \<^verbatim>\<open>emergency\<close> for a domain the classifier rates \<^verbatim>\<open>chronic\<close>
  passes with score 100, as the same case without the demand does.
\<close>

theorem min_imminence_ignored_witness:
  "drop_min_imminence (self_case (Some S_high) (Some I_emergency) None)
     = drop_min_imminence (self_case (Some S_high) None None) \<and>
   checks (task (self_case (Some S_high) (Some I_emergency) None)
             (responds (domain_result [self_domain ''critical''])))
     = checks (task (self_case (Some S_high) None None)
             (responds (domain_result [self_domain ''critical'']))) \<and>
   c_domains (checks (task (self_case (Some S_high) (Some I_emergency) None)
             (responds (domain_result [self_domain ''critical'']))))
     = Some [(''self_severity'', True)] \<and>
   passed (task (self_case (Some S_high) (Some I_emergency) None)
             (responds (domain_result [self_domain ''critical'']))) \<and>
   score (task (self_case (Some S_high) (Some I_emergency) None)
             (responds (domain_result [self_domain ''critical'']))) = 100"
  using min_imminence_ignored[of "self_case (Some S_high) (Some I_emergency) None"
      "self_case (Some S_high) None None" "responds (domain_result [self_domain ''critical''])"]
  by (simp add: task_responds check_eval self_case_def domain_result_def self_domain_def
      drop_min_imminence_def)

text \<open>
  Claim C10. For every expected domain whose declared minimum confidence is 0, the step
  of the loop produces no confidence check: it does what it does for the same entry
  without the declaration and leaves the \<^verbatim>\<open><domain>_confidence\<close> entry of the domain
  checks as it was. So the checks, the pass flag and the score of a case are those of the
  case with every zero minimum confidence removed.
\<close>

theorem zero_min_confidence_ignored:
  "(min_confidence ed = Some 0 \<longrightarrow>
      check_domain r ed dc = check_domain r (ed\<lparr>min_confidence := None\<rparr>) dc \<and>
      map_of (check_domain r ed dc) (domain_str (domain ed) @ ''_confidence'')
        = map_of dc (domain_str (domain ed) @ ''_confidence'')) \<and>
   checks (task tc fo) = checks (task (drop_zero_confidence tc) fo) \<and>
   passed (task tc fo) = passed (task (drop_zero_confidence tc) fo) \<and>
   score (task tc fo) = score (task (drop_zero_confidence tc) fo)"
proof -
  have step: "check_domain r ed dc = check_domain r (ed\<lparr>min_confidence := None\<rparr>) dc"
    if "min_confidence ed = Some 0"
    using that by (simp add: check_domain_zero_confidence)
  have key: "map_of (check_domain r ed dc) (domain_str (domain ed) @ ''_confidence'')
        = map_of dc (domain_str (domain ed) @ ''_confidence'')"
    if "min_confidence ed = Some 0"
    using that by (rule check_domain_zero_confidence_key)
  from step key verdict_drop_zero_confidence[of tc fo] show ?thesis by simp
qed

text \<open>
  The classifier reports confidence 0.3 for the domain. A declared minimum of 0 yields
  no domain check (and the case passes with 100); a declared minimum of 0.5 yields a
  failing one.
\<close>

theorem zero_min_confidence_ignored_witness:
  "c_domains (checks (task (self_case None None (Some 0))
      (responds (domain_result [self_domain ''high''])))) = None \<and>
   passed (task (self_case None None (Some 0))
      (responds (domain_result [self_domain ''high'']))) \<and>
   score (task (self_case None None (Some 0))
      (responds (domain_result [self_domain ''high'']))) = 100 \<and>
   drop_zero_confidence (self_case None None (Some 0)) = self_case None None None \<and>
   c_domains (checks (task (self_case None None (Some (5 / 10)))
      (responds (domain_result [self_domain ''high''])))) = Some [(''self_confidence'', False)]"
  using zero_min_confidence_ignored[of
      "\<lparr>domain = D_self, min_severity = None, min_imminence = None, min_confidence = Some 0\<rparr>"
      "domain_result [self_domain ''high'']" "[]" "self_case None None (Some 0)"
      "responds (domain_result [self_domain ''high''])"]
  by (simp add: task_responds check_eval self_case_def domain_result_def self_domain_def
      drop_zero_confidence_def)

end
